theory Spec2Isabelle
  imports Main "HOL-Library.Finite_Map"
begin

section \<open>Go maps and slices\<close>

text \<open>
  The package \<^verbatim>\<open>kbfsmd\<close> works on Go maps. A Go map is a finite map, so it is a
  \<open>('k, 'v) fmap\<close> here. Three things of Go are written out:

  \<^item> \<^verbatim>\<open>len(m)\<close> is the number of keys, a Go \<^verbatim>\<open>int\<close>;
  \<^item> \<^verbatim>\<open>m[k]\<close> at a missing key is the zero value of the value type (\<^verbatim>\<open>false\<close>,
    the nil slice, the nil map, the zero struct); a nil map and a nil slice read like
    the empty ones, and the source never writes to a map it did not check or make;
  \<^item> \<^verbatim>\<open>for k, v := range m\<close> visits every key once, in an order the language
    does not fix. Every function that ranges over a map takes the order of the visit
    as a list of keys; what is proved holds for every order the runtime may choose
    (\<open>range_order\<close>).

  The types \<^verbatim>\<open>keybase1.UID\<close>, \<^verbatim>\<open>kbfscrypto.CryptPublicKey\<close>, \<^verbatim>\<open>kbfshash.HMAC\<close>
  and the key halves are declared outside this file; they are type variables
  (\<open>'uid\<close>, \<open>'key\<close>, \<open>'h\<close>, ...), of sort \<open>zero\<close> where the source builds their
  zero value.

  Maps that the source only reads or builds afresh are values. The maps and slices
  that \<^verbatim>\<open>AddGeneration\<close> writes to in place are objects in a store (section
  \<open>Removal bookkeeping\<close>), so that what the writes do to storage that is shared is
  part of the embedding.
\<close>

definition map_len :: "('k, 'v) fmap \<Rightarrow> int" where
  "map_len m = int (card (fmdom' m))"

definition range_order :: "'k list \<Rightarrow> ('k, 'v) fmap \<Rightarrow> bool" where
  "range_order ks m = (distinct ks \<and> set ks = fmdom' m)"

section \<open>Identifiers and key infos\<close>

record 'h TLFCryptKeyServerHalfID =
  ID :: 'h

record ('ech, 'h, 'ufs) TLFCryptKeyInfo =
  ClientHalf :: 'ech
  ServerHalfID :: "'h TLFCryptKeyServerHalfID"
  EPubKeyIndex :: int
  UnknownFieldSetHandler :: 'ufs

section \<open>Sets of device keys\<close>

type_synonym 'key DevicePublicKeys = "('key, bool) fmap"

type_synonym ('uid, 'key) UserDevicePublicKeys = "('uid, 'key DevicePublicKeys) fmap"

text \<open>\<^verbatim>\<open>other[k]\<close> on a \<^verbatim>\<open>map[CryptPublicKey]bool\<close>: the stored value, false when absent.\<close>

definition dpk_index :: "'key DevicePublicKeys \<Rightarrow> 'key \<Rightarrow> bool" where
  "dpk_index m k = (case fmlookup m k of None \<Rightarrow> False | Some b \<Rightarrow> b)"

text \<open>\<^verbatim>\<open>other[u]\<close> on a \<^verbatim>\<open>UserDevicePublicKeys\<close>: the nil map when absent.\<close>

definition udpk_index :: "('uid, 'key) UserDevicePublicKeys \<Rightarrow> 'uid \<Rightarrow> 'key DevicePublicKeys" where
  "udpk_index m u = (case fmlookup m u of None \<Rightarrow> fmempty | Some dpk \<Rightarrow> dpk)"

fun DevicePublicKeys_Equals_loop :: "'key list \<Rightarrow> 'key DevicePublicKeys \<Rightarrow> bool" where
  "DevicePublicKeys_Equals_loop [] other = True"
| "DevicePublicKeys_Equals_loop (k # ks) other =
     (if \<not> dpk_index other k then False
      else DevicePublicKeys_Equals_loop ks other)"

definition DevicePublicKeys_Equals ::
  "'key list \<Rightarrow> 'key DevicePublicKeys \<Rightarrow> 'key DevicePublicKeys \<Rightarrow> bool" where
  "DevicePublicKeys_Equals ks dpk other =
     (if map_len dpk \<noteq> map_len other then False
      else DevicePublicKeys_Equals_loop ks other)"

text \<open>
  The representation the doc comment of \<^verbatim>\<open>DevicePublicKeys\<close> names: a set of devices,
  every stored value being \<^verbatim>\<open>true\<close>.
\<close>

definition all_true :: "'key DevicePublicKeys \<Rightarrow> bool" where
  "all_true m = (\<forall>k \<in> fmdom' m. fmlookup m k = Some True)"

fun UserDevicePublicKeys_Equals_loop ::
  "'uid list \<Rightarrow> ('uid \<Rightarrow> 'key list) \<Rightarrow> ('uid, 'key) UserDevicePublicKeys \<Rightarrow>
   ('uid, 'key) UserDevicePublicKeys \<Rightarrow> bool" where
  "UserDevicePublicKeys_Equals_loop [] ko udpk other = True"
| "UserDevicePublicKeys_Equals_loop (u # us) ko udpk other =
     (let dpk = udpk_index udpk u in
      if \<not> DevicePublicKeys_Equals (ko u) dpk (udpk_index other u) then False
      else UserDevicePublicKeys_Equals_loop us ko udpk other)"

text \<open>
  \<open>us\<close> is the order in which the users of \<open>udpk\<close> are visited, \<open>ko u\<close> the order in
  which the inner \<^verbatim>\<open>Equals\<close> visits the devices of user \<open>u\<close>.
\<close>

definition UserDevicePublicKeys_Equals ::
  "'uid list \<Rightarrow> ('uid \<Rightarrow> 'key list) \<Rightarrow> ('uid, 'key) UserDevicePublicKeys \<Rightarrow>
   ('uid, 'key) UserDevicePublicKeys \<Rightarrow> bool" where
  "UserDevicePublicKeys_Equals us ko udpk other =
     (if map_len udpk \<noteq> map_len other then False
      else UserDevicePublicKeys_Equals_loop us ko udpk other)"

fun RemoveKeylessUsersForTest_loop ::
  "'uid list \<Rightarrow> ('uid, 'key) UserDevicePublicKeys \<Rightarrow> ('uid, 'key) UserDevicePublicKeys \<Rightarrow>
   ('uid, 'key) UserDevicePublicKeys" where
  "RemoveKeylessUsersForTest_loop [] udpk udpkRemoved = udpkRemoved"
| "RemoveKeylessUsersForTest_loop (u # us) udpk udpkRemoved =
     (let dpk = udpk_index udpk u in
      if map_len dpk > 0
      then RemoveKeylessUsersForTest_loop us udpk (fmupd u dpk udpkRemoved)
      else RemoveKeylessUsersForTest_loop us udpk udpkRemoved)"

definition RemoveKeylessUsersForTest ::
  "'uid list \<Rightarrow> ('uid, 'key) UserDevicePublicKeys \<Rightarrow> ('uid, 'key) UserDevicePublicKeys" where
  "RemoveKeylessUsersForTest us udpk = RemoveKeylessUsersForTest_loop us udpk fmempty"

section \<open>Splitting a key\<close>

text \<open>
  \<^verbatim>\<open>cryptoPure\<close> is an interface; an implementation is a record of what its three
  methods return (\<open>Inl\<close> the error). \<^verbatim>\<open>MakeRandomTLFCryptKeyServerHalf\<close> takes no
  argument and is called once, so it is the outcome of that call.
  \<^verbatim>\<open>kbfscrypto.MaskTLFCryptKey\<close> is not part of this file and is a parameter.
  The calls made on the interface are logged, in order.
\<close>

record ('e, 'sh, 'ch, 'ech, 'h, 'uid, 'key, 'epriv) cryptoPure =
  MakeRandomTLFCryptKeyServerHalf :: "'e + 'sh"
  EncryptTLFCryptKeyClientHalf :: "'epriv \<Rightarrow> 'key \<Rightarrow> 'ch \<Rightarrow> 'e + 'ech"
  GetTLFCryptKeyServerHalfID :: "'uid \<Rightarrow> 'key \<Rightarrow> 'sh \<Rightarrow> 'e + 'h TLFCryptKeyServerHalfID"

datatype ('sh, 'ch, 'uid, 'key, 'epriv) crypto_call =
  Call_MakeRandomTLFCryptKeyServerHalf
| Call_EncryptTLFCryptKeyClientHalf 'epriv 'key 'ch
| Call_GetTLFCryptKeyServerHalfID 'uid 'key 'sh

text \<open>The zero values \<^verbatim>\<open>TLFCryptKeyInfo{}\<close> and \<^verbatim>\<open>TLFCryptKeyServerHalfID{}\<close>.\<close>

definition zero_TLFCryptKeyServerHalfID :: "('h::zero) TLFCryptKeyServerHalfID" where
  "zero_TLFCryptKeyServerHalfID = \<lparr>ID = 0\<rparr>"

definition zero_TLFCryptKeyInfo :: "('ech::zero, 'h::zero, 'ufs::zero) TLFCryptKeyInfo" where
  "zero_TLFCryptKeyInfo =
     \<lparr>ClientHalf = 0, ServerHalfID = zero_TLFCryptKeyServerHalfID, EPubKeyIndex = 0,
      UnknownFieldSetHandler = 0\<rparr>"

text \<open>
  The result is the triple the Go function returns (the error is \<open>None\<close> for
  \<^verbatim>\<open>nil\<close>), paired with the log of the interface calls.
\<close>

definition SplitTLFCryptKey ::
  "('e, 'sh::zero, 'ch, 'ech::zero, 'h::zero, 'uid, 'key, 'epriv) cryptoPure \<Rightarrow>
   ('sh \<Rightarrow> 'tk \<Rightarrow> 'ch) \<Rightarrow> 'uid \<Rightarrow> 'tk \<Rightarrow> 'epriv \<Rightarrow> int \<Rightarrow> 'key \<Rightarrow>
   (('ech, 'h, 'ufs::zero) TLFCryptKeyInfo \<times> 'sh \<times> 'e option) \<times>
   ('sh, 'ch, 'uid, 'key, 'epriv) crypto_call list" where
  "SplitTLFCryptKey crypto MaskTLFCryptKey uid tlfCryptKey ePrivKey ePubIndex pubKey =
     (case MakeRandomTLFCryptKeyServerHalf crypto of
        Inl err \<Rightarrow>
          ((zero_TLFCryptKeyInfo, 0, Some err), [Call_MakeRandomTLFCryptKeyServerHalf])
      | Inr serverHalf \<Rightarrow>
          (let clientHalf = MaskTLFCryptKey serverHalf tlfCryptKey in
           case EncryptTLFCryptKeyClientHalf crypto ePrivKey pubKey clientHalf of
             Inl err \<Rightarrow>
               ((zero_TLFCryptKeyInfo, 0, Some err),
                [Call_MakeRandomTLFCryptKeyServerHalf,
                 Call_EncryptTLFCryptKeyClientHalf ePrivKey pubKey clientHalf])
           | Inr encryptedClientHalf \<Rightarrow>
               (case GetTLFCryptKeyServerHalfID crypto uid pubKey serverHalf of
                  Inl err \<Rightarrow>
                    ((zero_TLFCryptKeyInfo, 0, Some err),
                     [Call_MakeRandomTLFCryptKeyServerHalf,
                      Call_EncryptTLFCryptKeyClientHalf ePrivKey pubKey clientHalf,
                      Call_GetTLFCryptKeyServerHalfID uid pubKey serverHalf])
                | Inr serverHalfID \<Rightarrow>
                    ((\<lparr>ClientHalf = encryptedClientHalf, ServerHalfID = serverHalfID,
                       EPubKeyIndex = ePubIndex, UnknownFieldSetHandler = 0\<rparr>,
                      serverHalf, None),
                     [Call_MakeRandomTLFCryptKeyServerHalf,
                      Call_EncryptTLFCryptKeyClientHalf ePrivKey pubKey clientHalf,
                      Call_GetTLFCryptKeyServerHalfID uid pubKey serverHalf]))))"

section \<open>Errors\<close>

text \<open>One constructor for each \<^verbatim>\<open>fmt.Errorf\<close> of the file, carrying its arguments in order.\<close>

datatype ('uid, 'key) error =
  UserInBothUserDeviceKeyServerHalves 'uid
    \<comment> \<open>user %s is in both UserDeviceKeyServerHalves\<close>
| UserRemovedMismatch bool bool 'uid
    \<comment> \<open>UserRemoved=%t != generation UserRemoved=%t for user %s\<close>
| DeviceCountMismatch int int 'uid
    \<comment> \<open>device count=%d != generation device count=%d for user %s\<close>
| IDCountMismatch int int 'uid 'key
    \<comment> \<open>expected %d keys, got %d for user %s and device %s\<close>
| NotExactlyOneKey int 'uid 'key
    \<comment> \<open>expected exactly one key, got %d for user %s and device %s\<close>
| NoGenerationInfoForDevice 'uid 'key
    \<comment> \<open>no generation info for user %s and device %s\<close>
| UserCountMismatch int int
    \<comment> \<open>user count=%d != generation user count=%d\<close>
| NoGenerationInfoForUser 'uid
    \<comment> \<open>no generation info for user %s\<close>
| UserInBothServerHalfRemovalInfos 'uid
    \<comment> \<open>user %s is in both ServerHalfRemovalInfos\<close>

section \<open>Merging server halves\<close>

type_synonym ('key, 'sh) DeviceKeyServerHalves = "('key, 'sh) fmap"

type_synonym ('uid, 'key, 'sh) UserDeviceKeyServerHalves =
  "('uid, ('key, 'sh) DeviceKeyServerHalves) fmap"

definition udksh_index ::
  "('uid, 'key, 'sh) UserDeviceKeyServerHalves \<Rightarrow> 'uid \<Rightarrow> ('key, 'sh) DeviceKeyServerHalves" where
  "udksh_index m uid = (case fmlookup m uid of None \<Rightarrow> fmempty | Some d \<Rightarrow> d)"

text \<open>The first loop of \<^verbatim>\<open>MergeUsers\<close> copies the receiver into the new map.\<close>

fun UserDeviceKeyServerHalves_MergeUsers_copy ::
  "'uid list \<Rightarrow> ('uid, 'key, 'sh) UserDeviceKeyServerHalves \<Rightarrow>
   ('uid, 'key, 'sh) UserDeviceKeyServerHalves \<Rightarrow> ('uid, 'key, 'sh) UserDeviceKeyServerHalves" where
  "UserDeviceKeyServerHalves_MergeUsers_copy [] serverHalves merged = merged"
| "UserDeviceKeyServerHalves_MergeUsers_copy (uid # uids) serverHalves merged =
     UserDeviceKeyServerHalves_MergeUsers_copy uids serverHalves
       (fmupd uid (udksh_index serverHalves uid) merged)"

text \<open>The second loop adds the users of \<open>other\<close> and stops at the first one already there.\<close>

fun UserDeviceKeyServerHalves_MergeUsers_add ::
  "'uid list \<Rightarrow> ('uid, 'key, 'sh) UserDeviceKeyServerHalves \<Rightarrow>
   ('uid, 'key, 'sh) UserDeviceKeyServerHalves \<Rightarrow>
   ('uid, 'key) error + ('uid, 'key, 'sh) UserDeviceKeyServerHalves" where
  "UserDeviceKeyServerHalves_MergeUsers_add [] other merged = Inr merged"
| "UserDeviceKeyServerHalves_MergeUsers_add (uid # uids) other merged =
     (if fmlookup merged uid \<noteq> None
      then Inl (UserInBothUserDeviceKeyServerHalves uid)
      else UserDeviceKeyServerHalves_MergeUsers_add uids other
             (fmupd uid (udksh_index other uid) merged))"

text \<open>\<open>us\<close> is the order of the visit of the receiver, \<open>os\<close> that of \<open>other\<close>.\<close>

definition UserDeviceKeyServerHalves_MergeUsers ::
  "'uid list \<Rightarrow> 'uid list \<Rightarrow> ('uid, 'key, 'sh) UserDeviceKeyServerHalves \<Rightarrow>
   ('uid, 'key, 'sh) UserDeviceKeyServerHalves \<Rightarrow>
   ('uid, 'key) error + ('uid, 'key, 'sh) UserDeviceKeyServerHalves" where
  "UserDeviceKeyServerHalves_MergeUsers us os serverHalves other =
     UserDeviceKeyServerHalves_MergeUsers_add os other
       (UserDeviceKeyServerHalves_MergeUsers_copy us serverHalves fmempty)"

section \<open>Removal bookkeeping\<close>

text \<open>
  \<^verbatim>\<open>addGeneration\<close> writes in place: it assigns into the map behind
  \<^verbatim>\<open>ri.DeviceServerHalfIDs\<close>, which the record in the history shares, and \<^verbatim>\<open>append\<close>
  writes into the backing array of the slice when it has spare capacity. So the maps
  and slices of the removal records are objects in a store:

  \<^item> the cells of all backing arrays lie one after another in \<open>mem\<close>; a slice is its
    header, the position \<open>ptr\<close> of its first cell, its length and its capacity, and two
    slices share storage when their cells overlap;
  \<^item> the map objects are the entries of \<open>hmaps\<close>; a map value is a reference, the
    index of its object (\<open>MapRef\<close>), or \<^verbatim>\<open>nil\<close> (\<open>NilMap\<close>); the type of a reference
    names the key type of its map; two records share a map when they hold the same
    reference.

  The top-level \<^verbatim>\<open>ServerHalfRemovalInfo\<close> maps are only read, and their entries are
  structs, copied on every read; they are values.
\<close>

record slice =
  ptr :: nat
  len :: nat
  cap :: nat

definition nil_slice :: slice where
  "nil_slice = \<lparr>ptr = 0, len = 0, cap = 0\<rparr>"

datatype 'key mapref = NilMap | MapRef nat

type_synonym 'key DeviceServerHalfRemovalInfo = "('key, slice) fmap"

record ('key, 'h) store =
  mem :: "'h TLFCryptKeyServerHalfID list"
  hmaps :: "'key DeviceServerHalfRemovalInfo list"

record 'key UserServerHalfRemovalInfo =
  UserRemoved :: bool
  DeviceServerHalfIDs :: "'key mapref"

type_synonym ('uid, 'key) ServerHalfRemovalInfo =
  "('uid, 'key UserServerHalfRemovalInfo) fmap"

text \<open>The map object behind a reference; a nil map reads as the empty map.\<close>

definition deref :: "('key, 'h) store \<Rightarrow> 'key mapref \<Rightarrow> 'key DeviceServerHalfRemovalInfo" where
  "deref st r =
     (case r of
        NilMap \<Rightarrow> fmempty
      | MapRef a \<Rightarrow> if a < length (hmaps st) then hmaps st ! a else fmempty)"

text \<open>\<^verbatim>\<open>ri.DeviceServerHalfIDs[key]\<close>: the nil slice when the device is absent.\<close>

definition dshri_index :: "('key, 'h) store \<Rightarrow> 'key mapref \<Rightarrow> 'key \<Rightarrow> slice" where
  "dshri_index st r key =
     (case fmlookup (deref st r) key of None \<Rightarrow> nil_slice | Some s \<Rightarrow> s)"

text \<open>\<^verbatim>\<open>genInfo[uid]\<close>: the zero struct when the user is absent.\<close>

definition shri_index :: "('uid, 'key) ServerHalfRemovalInfo \<Rightarrow> 'uid \<Rightarrow> 'key UserServerHalfRemovalInfo" where
  "shri_index m uid =
     (case fmlookup m uid of
        None \<Rightarrow> \<lparr>UserRemoved = False, DeviceServerHalfIDs = NilMap\<rparr>
      | Some ri \<Rightarrow> ri)"

text \<open>The elements of a slice, and \<^verbatim>\<open>s[i]\<close>.\<close>

definition elems :: "('key, 'h) store \<Rightarrow> slice \<Rightarrow> 'h TLFCryptKeyServerHalfID list" where
  "elems st s = take (len s) (drop (ptr s) (mem st))"

definition slice_nth :: "('key, 'h) store \<Rightarrow> slice \<Rightarrow> nat \<Rightarrow> 'h TLFCryptKeyServerHalfID" where
  "slice_nth st s i = mem st ! (ptr s + i)"

text \<open>
  \<^verbatim>\<open>append(s, x)\<close>. With spare capacity the element is written into the cell after
  the last one and the new header has the same array. Without, a new array is
  allocated after all others, the elements are copied and the rest is zeroed; the
  language leaves its capacity to the runtime, which is the parameter \<open>grow\<close> (the
  capacity it picks for an array grown from the given capacity), at least the new
  length.
\<close>

definition append_slice ::
  "(nat \<Rightarrow> nat) \<Rightarrow> ('key, 'h::zero) store \<Rightarrow> slice \<Rightarrow> 'h TLFCryptKeyServerHalfID \<Rightarrow>
   ('key, 'h) store \<times> slice" where
  "append_slice grow st s x =
     (if len s < cap s
      then (st\<lparr>mem := (mem st)[ptr s + len s := x]\<rparr>, s\<lparr>len := len s + 1\<rparr>)
      else
        (let newcap = max (len s + 1) (grow (cap s)) in
         (st\<lparr>mem := mem st @ elems st s @ [x] @
                       replicate (newcap - (len s + 1)) zero_TLFCryptKeyServerHalfID\<rparr>,
          \<lparr>ptr = length (mem st), len = len s + 1, cap = newcap\<rparr>)))"

text \<open>
  \<^verbatim>\<open>m[key] = v\<close>. On a nil map Go panics; the source assigns only after it has found
  the key in the map, so that branch is never taken.
\<close>

definition map_assign ::
  "('key, 'h) store \<Rightarrow> 'key mapref \<Rightarrow> 'key \<Rightarrow> slice \<Rightarrow> ('key, 'h) store" where
  "map_assign st r key v =
     (case r of
        NilMap \<Rightarrow> st
      | MapRef a \<Rightarrow> st\<lparr>hmaps := (hmaps st)[a := fmupd key v (deref st r)]\<rparr>)"

text \<open>
  The loop of \<^verbatim>\<open>addGeneration\<close> over the devices of the generation. \<open>gen\<close> is
  \<^verbatim>\<open>genInfo.DeviceServerHalfIDs\<close> and \<open>dsh\<close> is \<^verbatim>\<open>ri.DeviceServerHalfIDs\<close>, both
  references; every read is made in the store as the earlier writes left it. The
  store is returned with the error, since the writes made before a failing check
  stay.
\<close>

fun addGeneration_loop ::
  "(nat \<Rightarrow> nat) \<Rightarrow> 'key list \<Rightarrow> 'uid \<Rightarrow> 'key mapref \<Rightarrow> int \<Rightarrow> 'key mapref \<Rightarrow> ('key, 'h::zero) store \<Rightarrow>
   ('uid, 'key) error option \<times> ('key, 'h) store" where
  "addGeneration_loop grow [] uid gen idCount dsh st = (None, st)"
| "addGeneration_loop grow (key # keys) uid gen idCount dsh st =
     (let serverHalfIDs = dshri_index st gen key;
          localIDCount = int (len (dshri_index st dsh key))
      in
      if idCount \<noteq> - 1 \<and> localIDCount \<noteq> idCount
      then (Some (IDCountMismatch idCount localIDCount uid key), st)
      else
        (let idCount' = (if idCount = - 1 then localIDCount else idCount) in
         if int (len serverHalfIDs) \<noteq> 1
         then (Some (NotExactlyOneKey (int (len serverHalfIDs)) uid key), st)
         else if fmlookup (deref st dsh) key = None
         then (Some (NoGenerationInfoForDevice uid key), st)
         else
           (let appended = append_slice grow st (dshri_index st dsh key)
                             (slice_nth st serverHalfIDs 0)
            in addGeneration_loop grow keys uid gen idCount' dsh
                 (map_assign (fst appended) dsh key (snd appended)))))"

text \<open>\<open>ks\<close> is the order in which the devices of \<open>genInfo\<close> are visited.\<close>

definition addGeneration ::
  "(nat \<Rightarrow> nat) \<Rightarrow> 'key list \<Rightarrow> 'key UserServerHalfRemovalInfo \<Rightarrow> 'uid \<Rightarrow>
   'key UserServerHalfRemovalInfo \<Rightarrow> ('key, 'h::zero) store \<Rightarrow>
   ('uid, 'key) error option \<times> ('key, 'h) store" where
  "addGeneration grow ks ri uid genInfo st =
     (if UserRemoved ri \<noteq> UserRemoved genInfo
      then (Some (UserRemovedMismatch (UserRemoved ri) (UserRemoved genInfo) uid), st)
      else if map_len (deref st (DeviceServerHalfIDs ri)) \<noteq>
              map_len (deref st (DeviceServerHalfIDs genInfo))
      then (Some (DeviceCountMismatch (map_len (deref st (DeviceServerHalfIDs ri)))
                    (map_len (deref st (DeviceServerHalfIDs genInfo))) uid), st)
      else addGeneration_loop grow ks uid (DeviceServerHalfIDs genInfo) (- 1)
             (DeviceServerHalfIDs ri) st)"

text \<open>
  The loop of \<^verbatim>\<open>AddGeneration\<close> over the users of the generation. \<open>ko uid\<close> is the
  order in which \<^verbatim>\<open>addGeneration\<close> visits the devices of user \<open>uid\<close>.
  \<^verbatim>\<open>info[uid]\<close> is a copy of the record, with the same map reference.
\<close>

fun AddGeneration_loop ::
  "(nat \<Rightarrow> nat) \<Rightarrow> 'uid list \<Rightarrow> ('uid \<Rightarrow> 'key list) \<Rightarrow> ('uid, 'key) ServerHalfRemovalInfo \<Rightarrow>
   ('uid, 'key) ServerHalfRemovalInfo \<Rightarrow> ('key, 'h::zero) store \<Rightarrow>
   ('uid, 'key) error option \<times> ('key, 'h) store" where
  "AddGeneration_loop grow [] ko genInfo info st = (None, st)"
| "AddGeneration_loop grow (uid # uids) ko genInfo info st =
     (let removalInfo = shri_index genInfo uid in
      case fmlookup info uid of
        None \<Rightarrow> (Some (NoGenerationInfoForUser uid), st)
      | Some ri \<Rightarrow>
          (case addGeneration grow (ko uid) ri uid removalInfo st of
             (Some err, st') \<Rightarrow> (Some err, st')
           | (None, st') \<Rightarrow> AddGeneration_loop grow uids ko genInfo info st'))"

text \<open>
  \<open>us\<close> is the order in which the users of \<open>genInfo\<close> are visited. The result is the
  error (\<open>None\<close> for \<^verbatim>\<open>nil\<close>) and the store as the call leaves it.
\<close>

definition AddGeneration ::
  "(nat \<Rightarrow> nat) \<Rightarrow> 'uid list \<Rightarrow> ('uid \<Rightarrow> 'key list) \<Rightarrow> ('uid, 'key) ServerHalfRemovalInfo \<Rightarrow>
   ('uid, 'key) ServerHalfRemovalInfo \<Rightarrow> ('key, 'h::zero) store \<Rightarrow>
   ('uid, 'key) error option \<times> ('key, 'h) store" where
  "AddGeneration grow us ko info genInfo st =
     (if map_len info \<noteq> map_len genInfo
      then (Some (UserCountMismatch (map_len info) (map_len genInfo)), st)
      else AddGeneration_loop grow us ko genInfo info st)"

text \<open>\<^verbatim>\<open>MergeUsers\<close> copies the records, each with its map reference.\<close>

fun ServerHalfRemovalInfo_MergeUsers_copy ::
  "'uid list \<Rightarrow> ('uid, 'key) ServerHalfRemovalInfo \<Rightarrow> ('uid, 'key) ServerHalfRemovalInfo \<Rightarrow>
   ('uid, 'key) ServerHalfRemovalInfo" where
  "ServerHalfRemovalInfo_MergeUsers_copy [] info merged = merged"
| "ServerHalfRemovalInfo_MergeUsers_copy (uid # uids) info merged =
     ServerHalfRemovalInfo_MergeUsers_copy uids info (fmupd uid (shri_index info uid) merged)"

fun ServerHalfRemovalInfo_MergeUsers_add ::
  "'uid list \<Rightarrow> ('uid, 'key) ServerHalfRemovalInfo \<Rightarrow> ('uid, 'key) ServerHalfRemovalInfo \<Rightarrow>
   ('uid, 'key) error + ('uid, 'key) ServerHalfRemovalInfo" where
  "ServerHalfRemovalInfo_MergeUsers_add [] other merged = Inr merged"
| "ServerHalfRemovalInfo_MergeUsers_add (uid # uids) other merged =
     (if fmlookup merged uid \<noteq> None
      then Inl (UserInBothServerHalfRemovalInfos uid)
      else ServerHalfRemovalInfo_MergeUsers_add uids other
             (fmupd uid (shri_index other uid) merged))"

definition ServerHalfRemovalInfo_MergeUsers ::
  "'uid list \<Rightarrow> 'uid list \<Rightarrow> ('uid, 'key) ServerHalfRemovalInfo \<Rightarrow> ('uid, 'key) ServerHalfRemovalInfo \<Rightarrow>
   ('uid, 'key) error + ('uid, 'key) ServerHalfRemovalInfo" where
  "ServerHalfRemovalInfo_MergeUsers us os info other =
     ServerHalfRemovalInfo_MergeUsers_add os other
       (ServerHalfRemovalInfo_MergeUsers_copy us info fmempty)"

section \<open>The lists a store holds\<close>

text \<open>
  What the specification speaks of are the ID lists: \<open>device_ids st info uid key\<close> is the list
  that \<^verbatim>\<open>info[uid].DeviceServerHalfIDs[key]\<close> holds in the store \<open>st\<close>. A removal record
  read with its lists is a \<open>UserServerHalfRemovalInfo_val\<close>.
\<close>

definition dsh_ref :: "('uid, 'key) ServerHalfRemovalInfo \<Rightarrow> 'uid \<Rightarrow> 'key mapref" where
  "dsh_ref info uid = DeviceServerHalfIDs (shri_index info uid)"

definition device_ids ::
  "('key, 'h) store \<Rightarrow> ('uid, 'key) ServerHalfRemovalInfo \<Rightarrow> 'uid \<Rightarrow> 'key \<Rightarrow>
   'h TLFCryptKeyServerHalfID list" where
  "device_ids st info uid key =
     elems st (dshri_index st (dsh_ref info uid) key)"

definition devices ::
  "('key, 'h) store \<Rightarrow> ('uid, 'key) ServerHalfRemovalInfo \<Rightarrow> 'uid \<Rightarrow> 'key set" where
  "devices st info uid = fmdom' (deref st (dsh_ref info uid))"

type_synonym ('key, 'h) DeviceServerHalfRemovalInfo_val =
  "('key, 'h TLFCryptKeyServerHalfID list) fmap"

record ('key, 'h) UserServerHalfRemovalInfo_val =
  UserRemoved_val :: bool
  DeviceServerHalfIDs_val :: "('key, 'h) DeviceServerHalfRemovalInfo_val"

type_synonym ('uid, 'key, 'h) ServerHalfRemovalInfo_val =
  "('uid, ('key, 'h) UserServerHalfRemovalInfo_val) fmap"

definition val_dsh ::
  "('key, 'h) store \<Rightarrow> 'key mapref \<Rightarrow> ('key, 'h) DeviceServerHalfRemovalInfo_val" where
  "val_dsh st r = fmmap (elems st) (deref st r)"

definition val_ri ::
  "('key, 'h) store \<Rightarrow> 'key UserServerHalfRemovalInfo \<Rightarrow> ('key, 'h) UserServerHalfRemovalInfo_val" where
  "val_ri st ri =
     \<lparr>UserRemoved_val = UserRemoved ri,
      DeviceServerHalfIDs_val = val_dsh st (DeviceServerHalfIDs ri)\<rparr>"

definition val_info ::
  "('key, 'h) store \<Rightarrow> ('uid, 'key) ServerHalfRemovalInfo \<Rightarrow> ('uid, 'key, 'h) ServerHalfRemovalInfo_val" where
  "val_info st info = fmmap (val_ri st) info"

section \<open>Storage that is not shared\<close>

text \<open>
  A slice is well formed when its cells exist. The history and the generation share
  no storage when their references and slices are well formed, no two users of the
  history hold the same map, no record of the generation holds a map of the history,
  no two slices of the history overlap, up to their capacity, and no slice of the
  history overlaps, up to its capacity, the elements of a slice of the generation.
\<close>

definition wf_slice :: "('key, 'h) store \<Rightarrow> slice \<Rightarrow> bool" where
  "wf_slice st s = (len s \<le> cap s \<and> ptr s + cap s \<le> length (mem st))"

definition wf_ref :: "('key, 'h) store \<Rightarrow> 'key mapref \<Rightarrow> bool" where
  "wf_ref st r = (case r of NilMap \<Rightarrow> True | MapRef a \<Rightarrow> a < length (hmaps st))"

definition region :: "slice \<Rightarrow> nat set" where
  "region s = {ptr s ..< ptr s + cap s}"

definition readable :: "slice \<Rightarrow> nat set" where
  "readable s = {ptr s ..< ptr s + len s}"

definition wf_info :: "('key, 'h) store \<Rightarrow> ('uid, 'key) ServerHalfRemovalInfo \<Rightarrow> bool" where
  "wf_info st info =
     (\<forall>uid \<in> fmdom' info. wf_ref st (dsh_ref info uid) \<and>
        (\<forall>key \<in> fmdom' (deref st (dsh_ref info uid)).
           wf_slice st (dshri_index st (dsh_ref info uid) key)))"

definition unshared ::
  "('key, 'h) store \<Rightarrow> ('uid, 'key) ServerHalfRemovalInfo \<Rightarrow> ('uid, 'key) ServerHalfRemovalInfo \<Rightarrow> bool" where
  "unshared st info genInfo =
     (wf_info st info \<and> wf_info st genInfo
      \<and> (\<forall>uid \<in> fmdom' info. \<forall>uid' \<in> fmdom' info.
            uid \<noteq> uid' \<longrightarrow> dsh_ref info uid = NilMap \<or> dsh_ref info uid \<noteq> dsh_ref info uid')
      \<and> (\<forall>uid \<in> fmdom' info. \<forall>uid' \<in> fmdom' genInfo.
            dsh_ref info uid = NilMap \<or> dsh_ref info uid \<noteq> dsh_ref genInfo uid')
      \<and> (\<forall>uid \<in> fmdom' info. \<forall>key \<in> fmdom' (deref st (dsh_ref info uid)).
          \<forall>uid' \<in> fmdom' info. \<forall>key' \<in> fmdom' (deref st (dsh_ref info uid')).
            (uid, key) \<noteq> (uid', key') \<longrightarrow>
            region (dshri_index st (dsh_ref info uid) key) \<inter>
            region (dshri_index st (dsh_ref info uid') key') = {})
      \<and> (\<forall>uid \<in> fmdom' info. \<forall>key \<in> fmdom' (deref st (dsh_ref info uid)).
          \<forall>uid' \<in> fmdom' genInfo. \<forall>key' \<in> fmdom' (deref st (dsh_ref genInfo uid')).
            region (dshri_index st (dsh_ref info uid) key) \<inter>
            readable (dshri_index st (dsh_ref genInfo uid') key') = {}))"

text \<open>
  One pass of lines 234-235 on device \<open>key\<close> of the map object \<open>a\<close>: the append, then
  the assignment of the new header into the map. The loop of \<^verbatim>\<open>addGeneration\<close> does
  this step for every device it accepts (lemma \<open>map_assign_append_at\<close>).
\<close>

definition append_at ::
  "(nat \<Rightarrow> nat) \<Rightarrow> ('key, 'h::zero) store \<Rightarrow> nat \<Rightarrow> 'key \<Rightarrow> 'h TLFCryptKeyServerHalfID \<Rightarrow>
   ('key, 'h) store" where
  "append_at grow st a key x =
     (let appended = append_slice grow st (dshri_index st (MapRef a) key) x
      in map_assign (fst appended) (MapRef a) key (snd appended))"

section \<open>What a generation must look like\<close>

text \<open>
  The structural conditions, as the specification lists them, on the lists the store
  holds before the call: equal user counts; every user of the generation present in
  the history; the same \<^verbatim>\<open>UserRemoved\<close> flag; equal device counts for each user; every
  device of the generation present in the history of its user; within a user of the
  history, all ID lists of one length; exactly one incoming ID for each device.
\<close>

definition structural_ok ::
  "('key, 'h) store \<Rightarrow> ('uid, 'key) ServerHalfRemovalInfo \<Rightarrow> ('uid, 'key) ServerHalfRemovalInfo \<Rightarrow> bool" where
  "structural_ok st info genInfo =
     (map_len info = map_len genInfo
      \<and> (\<forall>uid \<in> fmdom' genInfo. uid \<in> fmdom' info)
      \<and> (\<forall>uid \<in> fmdom' genInfo. uid \<in> fmdom' info \<longrightarrow>
            UserRemoved (shri_index info uid) = UserRemoved (shri_index genInfo uid))
      \<and> (\<forall>uid \<in> fmdom' genInfo. uid \<in> fmdom' info \<longrightarrow>
            map_len (deref st (dsh_ref info uid)) = map_len (deref st (dsh_ref genInfo uid)))
      \<and> (\<forall>uid \<in> fmdom' genInfo. uid \<in> fmdom' info \<longrightarrow>
            (\<forall>key \<in> devices st genInfo uid. key \<in> devices st info uid))
      \<and> (\<forall>uid \<in> fmdom' info.
            \<forall>key \<in> devices st info uid. \<forall>key' \<in> devices st info uid.
               length (device_ids st info uid key) = length (device_ids st info uid key'))
      \<and> (\<forall>uid \<in> fmdom' genInfo.
            \<forall>key \<in> devices st genInfo uid. length (device_ids st genInfo uid key) = 1))"


text \<open>
  The user and the device an error of \<^verbatim>\<open>AddGeneration\<close> names: the place where the
  call stopped.
\<close>

fun error_user :: "('uid, 'key) error \<Rightarrow> 'uid option" where
  "error_user (UserInBothUserDeviceKeyServerHalves uid) = Some uid"
| "error_user (UserRemovedMismatch r g uid) = Some uid"
| "error_user (DeviceCountMismatch n m uid) = Some uid"
| "error_user (IDCountMismatch c l uid key) = Some uid"
| "error_user (NotExactlyOneKey n uid key) = Some uid"
| "error_user (NoGenerationInfoForDevice uid key) = Some uid"
| "error_user (UserCountMismatch n m) = None"
| "error_user (NoGenerationInfoForUser uid) = Some uid"
| "error_user (UserInBothServerHalfRemovalInfos uid) = Some uid"

fun error_device :: "('uid, 'key) error \<Rightarrow> 'key option" where
  "error_device (IDCountMismatch c l uid key) = Some key"
| "error_device (NotExactlyOneKey n uid key) = Some key"
| "error_device (NoGenerationInfoForDevice uid key) = Some key"
| "error_device (UserInBothUserDeviceKeyServerHalves uid) = None"
| "error_device (UserRemovedMismatch r g uid) = None"
| "error_device (DeviceCountMismatch n m uid) = None"
| "error_device (UserCountMismatch n m) = None"
| "error_device (NoGenerationInfoForUser uid) = None"
| "error_device (UserInBothServerHalfRemovalInfos uid) = None"

text \<open>
  The users visited before the user the error names, in the order \<open>us\<close>, and the
  devices visited before the device it names, in the order \<open>ks\<close>; none when the error
  names no user, or no device. \<open>appended_before e us ko uid key\<close>: device \<open>key\<close> of
  user \<open>uid\<close> was visited before the check that failed with \<open>e\<close>.
\<close>

definition visited_users :: "('uid, 'key) error \<Rightarrow> 'uid list \<Rightarrow> 'uid list" where
  "visited_users e us =
     (case error_user e of None \<Rightarrow> [] | Some uf \<Rightarrow> takeWhile (\<lambda>u. u \<noteq> uf) us)"

definition visited_devices :: "('uid, 'key) error \<Rightarrow> 'key list \<Rightarrow> 'key list" where
  "visited_devices e ks =
     (case error_device e of None \<Rightarrow> [] | Some kf \<Rightarrow> takeWhile (\<lambda>k. k \<noteq> kf) ks)"

definition appended_before ::
  "('uid, 'key) error \<Rightarrow> 'uid list \<Rightarrow> ('uid \<Rightarrow> 'key list) \<Rightarrow> 'uid \<Rightarrow> 'key \<Rightarrow> bool" where
  "appended_before e us ko uid key =
     ((uid \<in> set (visited_users e us) \<and> key \<in> set (ko uid)) \<or>
      (error_user e = Some uid \<and> uid \<in> set us \<and> key \<in> set (visited_devices e (ko uid))))"

section \<open>The fold on lists\<close>

text \<open>
  Where no storage is shared, \<^verbatim>\<open>AddGeneration\<close> does to the lists what the
  following functions do to records read with their lists (lemma
  \<open>AddGeneration_refines\<close>); they take the same checks in the same order. They are
  not the embedding of the source, which is in section \<open>Removal bookkeeping\<close>: they
  serve the proofs, and where storage is shared the source does otherwise (section
  \<open>Removal bookkeeping on the sample stores\<close>).
\<close>

text \<open>\<^verbatim>\<open>ri.DeviceServerHalfIDs[key]\<close>: the nil slice when the device is absent.\<close>

definition dshri_index_val ::
  "('key, 'h) DeviceServerHalfRemovalInfo_val \<Rightarrow> 'key \<Rightarrow> 'h TLFCryptKeyServerHalfID list" where
  "dshri_index_val m key = (case fmlookup m key of None \<Rightarrow> [] | Some ids \<Rightarrow> ids)"

text \<open>\<^verbatim>\<open>genInfo[uid]\<close>: the zero struct when the user is absent.\<close>

definition shri_index_val ::
  "('uid, 'key, 'h) ServerHalfRemovalInfo_val \<Rightarrow> 'uid \<Rightarrow> ('key, 'h) UserServerHalfRemovalInfo_val" where
  "shri_index_val m uid =
     (case fmlookup m uid of
        None \<Rightarrow> \<lparr>UserRemoved_val = False, DeviceServerHalfIDs_val = fmempty\<rparr>
      | Some ri \<Rightarrow> ri)"

text \<open>The loop over the devices, on lists.\<close>

fun addGeneration_loop_val ::
  "'key list \<Rightarrow> 'uid \<Rightarrow> ('key, 'h) DeviceServerHalfRemovalInfo_val \<Rightarrow> int \<Rightarrow>
   ('key, 'h) DeviceServerHalfRemovalInfo_val \<Rightarrow>
   ('uid, 'key) error option \<times> ('key, 'h) DeviceServerHalfRemovalInfo_val" where
  "addGeneration_loop_val [] uid gen idCount dsh = (None, dsh)"
| "addGeneration_loop_val (key # keys) uid gen idCount dsh =
     (let serverHalfIDs = dshri_index_val gen key;
          localIDCount = int (length (dshri_index_val dsh key))
      in
      if idCount \<noteq> - 1 \<and> localIDCount \<noteq> idCount
      then (Some (IDCountMismatch idCount localIDCount uid key), dsh)
      else
        (let idCount' = (if idCount = - 1 then localIDCount else idCount) in
         if int (length serverHalfIDs) \<noteq> 1
         then (Some (NotExactlyOneKey (int (length serverHalfIDs)) uid key), dsh)
         else if fmlookup dsh key = None
         then (Some (NoGenerationInfoForDevice uid key), dsh)
         else addGeneration_loop_val keys uid gen idCount'
                (fmupd key (dshri_index_val dsh key @ [serverHalfIDs ! 0]) dsh)))"

definition addGeneration_val ::
  "'key list \<Rightarrow> ('key, 'h) UserServerHalfRemovalInfo_val \<Rightarrow> 'uid \<Rightarrow>
   ('key, 'h) UserServerHalfRemovalInfo_val \<Rightarrow>
   ('uid, 'key) error option \<times> ('key, 'h) UserServerHalfRemovalInfo_val" where
  "addGeneration_val ks ri uid genInfo =
     (if UserRemoved_val ri \<noteq> UserRemoved_val genInfo
      then (Some (UserRemovedMismatch (UserRemoved_val ri) (UserRemoved_val genInfo) uid), ri)
      else if map_len (DeviceServerHalfIDs_val ri) \<noteq> map_len (DeviceServerHalfIDs_val genInfo)
      then (Some (DeviceCountMismatch (map_len (DeviceServerHalfIDs_val ri))
                    (map_len (DeviceServerHalfIDs_val genInfo)) uid), ri)
      else
        (case addGeneration_loop_val ks uid (DeviceServerHalfIDs_val genInfo) (- 1)
                (DeviceServerHalfIDs_val ri) of
           (err, dsh) \<Rightarrow> (err, ri\<lparr>DeviceServerHalfIDs_val := dsh\<rparr>)))"

text \<open>The loop over the users, on lists; the record of the user is put back with its new lists.\<close>

fun AddGeneration_loop_val ::
  "'uid list \<Rightarrow> ('uid \<Rightarrow> 'key list) \<Rightarrow> ('uid, 'key, 'h) ServerHalfRemovalInfo_val \<Rightarrow>
   ('uid, 'key, 'h) ServerHalfRemovalInfo_val \<Rightarrow>
   ('uid, 'key) error option \<times> ('uid, 'key, 'h) ServerHalfRemovalInfo_val" where
  "AddGeneration_loop_val [] ko genInfo info = (None, info)"
| "AddGeneration_loop_val (uid # uids) ko genInfo info =
     (let removalInfo = shri_index_val genInfo uid in
      case fmlookup info uid of
        None \<Rightarrow> (Some (NoGenerationInfoForUser uid), info)
      | Some ri \<Rightarrow>
          (case addGeneration_val (ko uid) ri uid removalInfo of
             (Some err, ri') \<Rightarrow> (Some err, fmupd uid ri' info)
           | (None, ri') \<Rightarrow> AddGeneration_loop_val uids ko genInfo (fmupd uid ri' info)))"

definition AddGeneration_val ::
  "'uid list \<Rightarrow> ('uid \<Rightarrow> 'key list) \<Rightarrow> ('uid, 'key, 'h) ServerHalfRemovalInfo_val \<Rightarrow>
   ('uid, 'key, 'h) ServerHalfRemovalInfo_val \<Rightarrow>
   ('uid, 'key) error option \<times> ('uid, 'key, 'h) ServerHalfRemovalInfo_val" where
  "AddGeneration_val us ko info genInfo =
     (if map_len info \<noteq> map_len genInfo
      then (Some (UserCountMismatch (map_len info) (map_len genInfo)), info)
      else AddGeneration_loop_val us ko genInfo info)"

section \<open>Stub implementations of the interface\<close>

text \<open>
  Deterministic implementations of \<^verbatim>\<open>cryptoPure\<close> over numbers, as a test would
  inject them: \<open>stub_crypto\<close> never fails, \<open>failing_crypto n\<close> fails in step \<open>n\<close>.
\<close>

definition stub_crypto ::
  "(string, nat, nat, nat, nat, nat, nat, nat) cryptoPure" where
  "stub_crypto =
     \<lparr>MakeRandomTLFCryptKeyServerHalf = Inr 5,
      EncryptTLFCryptKeyClientHalf = (\<lambda>priv pub ch. Inr (priv + pub + ch)),
      GetTLFCryptKeyServerHalfID = (\<lambda>uid pub sh. Inr \<lparr>ID = uid + pub + sh\<rparr>)\<rparr>"

definition failing_crypto ::
  "nat \<Rightarrow> (string, nat, nat, nat, nat, nat, nat, nat) cryptoPure" where
  "failing_crypto n =
     \<lparr>MakeRandomTLFCryptKeyServerHalf = (if n = 1 then Inl ''random'' else Inr 5),
      EncryptTLFCryptKeyClientHalf =
        (\<lambda>priv pub ch. if n = 2 then Inl ''encrypt'' else Inr (priv + pub + ch)),
      GetTLFCryptKeyServerHalfID =
        (\<lambda>uid pub sh. if n = 3 then Inl ''id'' else Inr \<lparr>ID = uid + pub + sh\<rparr>)\<rparr>"

text \<open>A roster with one user holding a device and one user holding none.\<close>

definition udpk_example :: "(nat, nat) UserDevicePublicKeys" where
  "udpk_example = fmupd 3 fmempty (fmupd 2 (fmupd 7 True fmempty) fmempty)"

section \<open>Sample bundles and removal records\<close>

text \<open>
  Users \<open>2\<close> and \<open>3\<close>, devices \<open>7\<close>, \<open>8\<close> and \<open>9\<close>. The primed values name user \<open>2\<close>
  again, with another payload. The removal records hold references to their device
  maps.
\<close>

definition halves_A :: "(nat, nat, nat) UserDeviceKeyServerHalves" where
  "halves_A = fmupd 2 (fmupd 7 11 fmempty) fmempty"

definition halves_B :: "(nat, nat, nat) UserDeviceKeyServerHalves" where
  "halves_B = fmupd 3 (fmupd 8 12 fmempty) fmempty"

definition halves_A' :: "(nat, nat, nat) UserDeviceKeyServerHalves" where
  "halves_A' = fmupd 2 (fmupd 9 13 fmempty) fmempty"

definition removal_A :: "(nat, nat) ServerHalfRemovalInfo" where
  "removal_A =
     fmupd 2 \<lparr>UserRemoved = False, DeviceServerHalfIDs = MapRef 0\<rparr> fmempty"

definition removal_B :: "(nat, nat) ServerHalfRemovalInfo" where
  "removal_B =
     fmupd 3 \<lparr>UserRemoved = True, DeviceServerHalfIDs = MapRef 2\<rparr> fmempty"

definition removal_A' :: "(nat, nat) ServerHalfRemovalInfo" where
  "removal_A' =
     fmupd 2 \<lparr>UserRemoved = False, DeviceServerHalfIDs = MapRef 3\<rparr> fmempty"

text \<open>Two rosters, each with one user that holds no device: user \<open>2\<close> and user \<open>3\<close>.\<close>

definition keyless_A :: "(nat, nat) UserDevicePublicKeys" where
  "keyless_A = fmupd 2 fmempty fmempty"

definition keyless_B :: "(nat, nat) UserDevicePublicKeys" where
  "keyless_B = fmupd 3 fmempty fmempty"

text \<open>
  Stores for \<^verbatim>\<open>AddGeneration\<close>. The runtime doubles the capacity of an array it
  grows.
\<close>

definition grow_double :: "nat \<Rightarrow> nat" where
  "grow_double c = 2 * c"

text \<open>
  The happy path of the specification: the history holds \<open>[11]\<close> for device \<open>7\<close> of
  user \<open>2\<close> and the generation brings \<open>[13]\<close>, in arrays of their own.
\<close>

definition store_happy :: "(nat, nat) store" where
  "store_happy =
     \<lparr>mem = [\<lparr>ID = 11\<rparr>, \<lparr>ID = 13\<rparr>],
      hmaps = [fmupd 7 \<lparr>ptr = 0, len = 1, cap = 1\<rparr> fmempty,
               fmupd 7 \<lparr>ptr = 1, len = 1, cap = 1\<rparr> fmempty]\<rparr>"

definition history_one_user :: "(nat, nat) ServerHalfRemovalInfo" where
  "history_one_user = fmupd 2 \<lparr>UserRemoved = False, DeviceServerHalfIDs = MapRef 0\<rparr> fmempty"

definition generation_one_user :: "(nat, nat) ServerHalfRemovalInfo" where
  "generation_one_user = fmupd 2 \<lparr>UserRemoved = False, DeviceServerHalfIDs = MapRef 1\<rparr> fmempty"

text \<open>
  Users \<open>2\<close> and \<open>3\<close> of the history hold the same device map, with \<open>[11]\<close> for device
  \<open>7\<close>; the generation brings \<open>[21]\<close> for user \<open>2\<close> and \<open>[31]\<close> for user \<open>3\<close>.
\<close>

definition store_shared_map :: "(nat, nat) store" where
  "store_shared_map =
     \<lparr>mem = [\<lparr>ID = 11\<rparr>, \<lparr>ID = 21\<rparr>, \<lparr>ID = 31\<rparr>],
      hmaps = [fmupd 7 \<lparr>ptr = 0, len = 1, cap = 1\<rparr> fmempty,
               fmupd 7 \<lparr>ptr = 1, len = 1, cap = 1\<rparr> fmempty,
               fmupd 7 \<lparr>ptr = 2, len = 1, cap = 1\<rparr> fmempty]\<rparr>"

definition history_shared_map :: "(nat, nat) ServerHalfRemovalInfo" where
  "history_shared_map =
     fmupd 3 \<lparr>UserRemoved = False, DeviceServerHalfIDs = MapRef 0\<rparr>
       (fmupd 2 \<lparr>UserRemoved = False, DeviceServerHalfIDs = MapRef 0\<rparr> fmempty)"

definition generation_two_users :: "(nat, nat) ServerHalfRemovalInfo" where
  "generation_two_users =
     fmupd 3 \<lparr>UserRemoved = False, DeviceServerHalfIDs = MapRef 2\<rparr>
       (fmupd 2 \<lparr>UserRemoved = False, DeviceServerHalfIDs = MapRef 1\<rparr> fmempty)"

text \<open>
  The lists of devices \<open>7\<close> and \<open>8\<close> of user \<open>2\<close> are two slices of one array of two
  cells, both of length \<open>1\<close> and capacity \<open>2\<close>, holding \<open>[11]\<close>; the generation brings
  \<open>[21]\<close> and \<open>[22]\<close>.
\<close>

definition store_shared_array :: "(nat, nat) store" where
  "store_shared_array =
     \<lparr>mem = [\<lparr>ID = 11\<rparr>, \<lparr>ID = 0\<rparr>, \<lparr>ID = 21\<rparr>, \<lparr>ID = 22\<rparr>],
      hmaps = [fmupd 8 \<lparr>ptr = 0, len = 1, cap = 2\<rparr>
                 (fmupd 7 \<lparr>ptr = 0, len = 1, cap = 2\<rparr> fmempty),
               fmupd 8 \<lparr>ptr = 3, len = 1, cap = 1\<rparr>
                 (fmupd 7 \<lparr>ptr = 2, len = 1, cap = 1\<rparr> fmempty)]\<rparr>"

text \<open>
  The history holds one ID for each of the devices \<open>7\<close> and \<open>8\<close> of user \<open>2\<close>; the
  generation brings one ID for device \<open>7\<close> and two for device \<open>8\<close>. No storage is
  shared.
\<close>

definition store_long_list :: "(nat, nat) store" where
  "store_long_list =
     \<lparr>mem = [\<lparr>ID = 11\<rparr>, \<lparr>ID = 12\<rparr>, \<lparr>ID = 21\<rparr>, \<lparr>ID = 22\<rparr>, \<lparr>ID = 23\<rparr>],
      hmaps = [fmupd 8 \<lparr>ptr = 1, len = 1, cap = 1\<rparr>
                 (fmupd 7 \<lparr>ptr = 0, len = 1, cap = 1\<rparr> fmempty),
               fmupd 8 \<lparr>ptr = 3, len = 2, cap = 2\<rparr>
                 (fmupd 7 \<lparr>ptr = 2, len = 1, cap = 1\<rparr> fmempty)]\<rparr>"

text \<open>
  The record of user \<open>3\<close> in the generation holds the device map of user \<open>2\<close> of the
  history (map \<open>0\<close>, with \<open>[11]\<close> for device \<open>7\<close>); user \<open>3\<close> of the history has \<open>[12]\<close>
  and the generation brings \<open>[21]\<close> for user \<open>2\<close>.
\<close>

definition store_borrowed_map :: "(nat, nat) store" where
  "store_borrowed_map =
     \<lparr>mem = [\<lparr>ID = 11\<rparr>, \<lparr>ID = 12\<rparr>, \<lparr>ID = 21\<rparr>],
      hmaps = [fmupd 7 \<lparr>ptr = 0, len = 1, cap = 1\<rparr> fmempty,
               fmupd 7 \<lparr>ptr = 1, len = 1, cap = 1\<rparr> fmempty,
               fmupd 7 \<lparr>ptr = 2, len = 1, cap = 1\<rparr> fmempty]\<rparr>"

definition history_two_users :: "(nat, nat) ServerHalfRemovalInfo" where
  "history_two_users =
     fmupd 3 \<lparr>UserRemoved = False, DeviceServerHalfIDs = MapRef 1\<rparr>
       (fmupd 2 \<lparr>UserRemoved = False, DeviceServerHalfIDs = MapRef 0\<rparr> fmempty)"

definition generation_borrowed_map :: "(nat, nat) ServerHalfRemovalInfo" where
  "generation_borrowed_map =
     fmupd 3 \<lparr>UserRemoved = False, DeviceServerHalfIDs = MapRef 0\<rparr>
       (fmupd 2 \<lparr>UserRemoved = False, DeviceServerHalfIDs = MapRef 2\<rparr> fmempty)"

text \<open>
  A removed user without devices: an empty map in the history, a nil map in the
  generation.
\<close>

definition store_keyless :: "(nat, nat) store" where
  "store_keyless = \<lparr>mem = [], hmaps = [fmempty]\<rparr>"

definition history_keyless :: "(nat, nat) ServerHalfRemovalInfo" where
  "history_keyless = fmupd 2 \<lparr>UserRemoved = True, DeviceServerHalfIDs = MapRef 0\<rparr> fmempty"

definition generation_keyless :: "(nat, nat) ServerHalfRemovalInfo" where
  "generation_keyless = fmupd 2 \<lparr>UserRemoved = True, DeviceServerHalfIDs = NilMap\<rparr> fmempty"

section \<open>The checks of the fold on lists\<close>

text \<open>
  What the loop of \<^verbatim>\<open>addGeneration\<close> checks on the devices \<open>ks\<close> still to visit,
  \<open>c\<close> being the current \<^verbatim>\<open>idCount\<close>: one incoming ID for each device, each device
  in the history, and the history lists all of the length \<open>c\<close> (of one length, when
  \<open>c\<close> is still \<open>- 1\<close>).
\<close>

definition loop_ok ::
  "'key list \<Rightarrow> ('key, 'h) DeviceServerHalfRemovalInfo_val \<Rightarrow> int \<Rightarrow>
   ('key, 'h) DeviceServerHalfRemovalInfo_val \<Rightarrow> bool" where
  "loop_ok ks gen c dsh =
     ((\<forall>k \<in> set ks. length (dshri_index_val gen k) = 1 \<and> k \<in> fmdom' dsh) \<and>
      (if c = - 1
       then (\<forall>k \<in> set ks. \<forall>k' \<in> set ks.
               length (dshri_index_val dsh k) = length (dshri_index_val dsh k'))
       else (\<forall>k \<in> set ks. int (length (dshri_index_val dsh k)) = c)))"

text \<open>What \<^verbatim>\<open>addGeneration\<close> checks on one user.\<close>

definition user_ok ::
  "'key list \<Rightarrow> ('key, 'h) UserServerHalfRemovalInfo_val \<Rightarrow> ('key, 'h) UserServerHalfRemovalInfo_val \<Rightarrow> bool" where
  "user_ok ks ri genInfo =
     (UserRemoved_val ri = UserRemoved_val genInfo \<and>
      map_len (DeviceServerHalfIDs_val ri) = map_len (DeviceServerHalfIDs_val genInfo) \<and>
      loop_ok ks (DeviceServerHalfIDs_val genInfo) (- 1) (DeviceServerHalfIDs_val ri))"

text \<open>
  The structural conditions on records read with their lists.
\<close>

definition structural_ok_val ::
  "('uid, 'key, 'h) ServerHalfRemovalInfo_val \<Rightarrow> ('uid, 'key, 'h) ServerHalfRemovalInfo_val \<Rightarrow> bool" where
  "structural_ok_val info genInfo =
     (map_len info = map_len genInfo
      \<and> (\<forall>uid \<in> fmdom' genInfo. uid \<in> fmdom' info)
      \<and> (\<forall>uid \<in> fmdom' genInfo. uid \<in> fmdom' info \<longrightarrow>
            UserRemoved_val (shri_index_val info uid) = UserRemoved_val (shri_index_val genInfo uid))
      \<and> (\<forall>uid \<in> fmdom' genInfo. uid \<in> fmdom' info \<longrightarrow>
            map_len (DeviceServerHalfIDs_val (shri_index_val info uid)) =
            map_len (DeviceServerHalfIDs_val (shri_index_val genInfo uid)))
      \<and> (\<forall>uid \<in> fmdom' genInfo. uid \<in> fmdom' info \<longrightarrow>
            (\<forall>key \<in> fmdom' (DeviceServerHalfIDs_val (shri_index_val genInfo uid)).
               key \<in> fmdom' (DeviceServerHalfIDs_val (shri_index_val info uid))))
      \<and> (\<forall>uid \<in> fmdom' info.
            \<forall>key \<in> fmdom' (DeviceServerHalfIDs_val (shri_index_val info uid)).
            \<forall>key' \<in> fmdom' (DeviceServerHalfIDs_val (shri_index_val info uid)).
               length (dshri_index_val (DeviceServerHalfIDs_val (shri_index_val info uid)) key) =
               length (dshri_index_val (DeviceServerHalfIDs_val (shri_index_val info uid)) key'))
      \<and> (\<forall>uid \<in> fmdom' genInfo.
            \<forall>key \<in> fmdom' (DeviceServerHalfIDs_val (shri_index_val genInfo uid)).
               length (dshri_index_val (DeviceServerHalfIDs_val (shri_index_val genInfo uid)) key) = 1))"


section \<open>Lemmas on Go maps\<close>

lemma map_len_empty: "map_len fmempty = 0"
  by (simp add: map_len_def)

lemma map_len_nonneg: "0 \<le> map_len m"
  by (simp add: map_len_def)

lemma map_len_zero_iff: "map_len m = 0 \<longleftrightarrow> m = fmempty"
proof
  assume "map_len m = 0"
  then have "fmdom' m = {}" by (simp add: map_len_def)
  then have "\<And>x. fmlookup m x = None" by (metis empty_iff fmdom'_notD)
  then show "m = fmempty" by (intro fmap_ext) simp
qed (simp add: map_len_empty)

lemma same_len_subset:
  assumes "map_len a = map_len b" "fmdom' a \<subseteq> fmdom' b"
  shows "fmdom' a = fmdom' b"
  using assms by (simp add: map_len_def card_subset_eq)

section \<open>Equality of device key sets\<close>

lemma DevicePublicKeys_Equals_loop_iff:
  "DevicePublicKeys_Equals_loop ks other \<longleftrightarrow> (\<forall>k \<in> set ks. dpk_index other k)"
  by (induction ks) auto

lemma DevicePublicKeys_Equals_iff:
  "range_order ks a \<Longrightarrow>
   DevicePublicKeys_Equals ks a b \<longleftrightarrow>
     (map_len a = map_len b \<and> (\<forall>k \<in> fmdom' a. fmlookup b k = Some True))"
  by (auto simp: DevicePublicKeys_Equals_def DevicePublicKeys_Equals_loop_iff
        range_order_def dpk_index_def split: option.splits)

lemma all_true_present: "all_true b \<Longrightarrow> fmlookup b k = Some True \<longleftrightarrow> k \<in> fmdom' b"
  by (auto simp: all_true_def fmlookup_dom'_iff)

lemma all_true_eqI:
  assumes "all_true a" "all_true b" "fmdom' a = fmdom' b"
  shows "a = b"
proof (rule fmap_ext)
  fix k
  show "fmlookup a k = fmlookup b k"
  proof (cases "k \<in> fmdom' a")
    case True
    then show ?thesis using assms by (simp add: all_true_def)
  next
    case False
    then show ?thesis using assms by (metis fmdom'_notD)
  qed
qed

text \<open>
  C7, as stated, fails: \<^verbatim>\<open>Equals\<close> reads \<^verbatim>\<open>other[k]\<close>, the stored boolean, so a
  map that stores \<^verbatim>\<open>false\<close> for a key is not equal to itself.
\<close>

theorem DevicePublicKeys_Equals_not_reflexive:
  "range_order [1::nat] (fmupd 1 False fmempty)
   \<and> \<not> DevicePublicKeys_Equals [1::nat] (fmupd 1 False fmempty) (fmupd 1 False fmempty)"
  by (simp add: range_order_def DevicePublicKeys_Equals_def dpk_index_def)

text \<open>
  C7, amended: for all \<^verbatim>\<open>DevicePublicKeys\<close> \<open>a\<close> and \<open>b\<close> that store \<^verbatim>\<open>true\<close> for every
  key (the set representation), and every order of the visits, \<^verbatim>\<open>Equals\<close> is
  symmetric and reflexive; \<^verbatim>\<open>Equals(a, b)\<close> holds exactly when \<open>a\<close> and \<open>b\<close> have the
  same cardinality and every key of \<open>a\<close> is present in \<open>b\<close>, which is exactly when
  they are the same set; and a set and the set with one more key are unequal, in
  both directions.
\<close>

theorem DevicePublicKeys_Equals_sets:
  assumes "range_order ka a" "range_order kb b" "all_true a" "all_true b"
  shows "DevicePublicKeys_Equals ka a b = DevicePublicKeys_Equals kb b a
       \<and> DevicePublicKeys_Equals ka a a
       \<and> (DevicePublicKeys_Equals ka a b \<longleftrightarrow>
            (map_len a = map_len b \<and> (\<forall>k \<in> fmdom' a. k \<in> fmdom' b)))
       \<and> (DevicePublicKeys_Equals ka a b \<longleftrightarrow> a = b)
       \<and> (\<forall>k. k \<notin> fmdom' a \<longrightarrow> b = fmupd k True a \<longrightarrow>
             \<not> DevicePublicKeys_Equals ka a b \<and> \<not> DevicePublicKeys_Equals kb b a)"
proof -
  have ab: "DevicePublicKeys_Equals ka a b \<longleftrightarrow>
      (map_len a = map_len b \<and> fmdom' a \<subseteq> fmdom' b)"
    using assms(1,4) by (auto simp: DevicePublicKeys_Equals_iff all_true_present)
  have ba: "DevicePublicKeys_Equals kb b a \<longleftrightarrow>
      (map_len b = map_len a \<and> fmdom' b \<subseteq> fmdom' a)"
    using assms(2,3) by (auto simp: DevicePublicKeys_Equals_iff all_true_present)
  have aa: "DevicePublicKeys_Equals ka a a"
    using assms(1,3) by (auto simp: DevicePublicKeys_Equals_iff all_true_present)
  have eq: "DevicePublicKeys_Equals ka a b \<longleftrightarrow> a = b"
    using ab aa all_true_eqI[OF assms(3,4)] same_len_subset by blast
  have eq': "DevicePublicKeys_Equals kb b a \<longleftrightarrow> a = b"
    using ba all_true_eqI[OF assms(3,4)] same_len_subset[of b a] aa eq by auto
  have ne: "\<And>k. k \<notin> fmdom' a \<Longrightarrow> b = fmupd k True a \<Longrightarrow> a \<noteq> b"
    by (metis fmdom'I fmupd_lookup)
  show ?thesis using ab aa eq eq' ne by blast
qed

theorem DevicePublicKeys_Equals_sets_witness:
  "range_order [1::nat] (fmupd 1 True fmempty)
   \<and> range_order [2, 1::nat] (fmupd 2 True (fmupd 1 True fmempty))
   \<and> all_true (fmupd (1::nat) True fmempty)
   \<and> all_true (fmupd 2 True (fmupd (1::nat) True fmempty))
   \<and> DevicePublicKeys_Equals [1::nat] (fmupd 1 True fmempty) (fmupd 1 True fmempty)
   \<and> \<not> DevicePublicKeys_Equals [1::nat] (fmupd 1 True fmempty)
         (fmupd 2 True (fmupd 1 True fmempty))
   \<and> \<not> DevicePublicKeys_Equals [2, 1::nat] (fmupd 2 True (fmupd 1 True fmempty))
         (fmupd 1 True fmempty)"
  using DevicePublicKeys_Equals_sets
          [of "[1::nat]" "fmupd 1 True fmempty" "[2, 1]" "fmupd 2 True (fmupd 1 True fmempty)"]
  by (simp add: range_order_def all_true_def)

section \<open>Splitting a key: results\<close>

text \<open>
  C4: when the three calls on the interface succeed, \<^verbatim>\<open>SplitTLFCryptKey\<close> returns
  no error, the server half that \<^verbatim>\<open>MakeRandomTLFCryptKeyServerHalf\<close> produced, and a
  key info whose client half is the encryption under \<open>(ePrivKey, pubKey)\<close> of the
  mask of that server half against \<open>tlfCryptKey\<close>, whose server half ID is
  \<^verbatim>\<open>GetTLFCryptKeyServerHalfID(uid, pubKey, serverHalf)\<close> and whose index is
  \<open>ePubIndex\<close>; the interface is called three times, in that order, with those
  arguments.
\<close>

theorem SplitTLFCryptKey_success:
  assumes "MakeRandomTLFCryptKeyServerHalf crypto = Inr serverHalf"
    and "EncryptTLFCryptKeyClientHalf crypto ePrivKey pubKey
           (MaskTLFCryptKey serverHalf tlfCryptKey) = Inr encryptedClientHalf"
    and "GetTLFCryptKeyServerHalfID crypto uid pubKey serverHalf = Inr serverHalfID"
  shows "SplitTLFCryptKey crypto MaskTLFCryptKey uid tlfCryptKey ePrivKey ePubIndex pubKey =
     ((\<lparr>ClientHalf = encryptedClientHalf, ServerHalfID = serverHalfID,
        EPubKeyIndex = ePubIndex, UnknownFieldSetHandler = (0 :: 'ufs :: zero)\<rparr>,
       serverHalf, None),
      [Call_MakeRandomTLFCryptKeyServerHalf,
       Call_EncryptTLFCryptKeyClientHalf ePrivKey pubKey (MaskTLFCryptKey serverHalf tlfCryptKey),
       Call_GetTLFCryptKeyServerHalfID uid pubKey serverHalf])"
  using assms by (simp add: SplitTLFCryptKey_def)

theorem SplitTLFCryptKey_success_witness:
  "SplitTLFCryptKey stub_crypto (\<lambda>s k. s + k) 1 10 100 7 1000 =
     ((\<lparr>ClientHalf = 1115, ServerHalfID = \<lparr>ID = 1006\<rparr>,
        EPubKeyIndex = 7, UnknownFieldSetHandler = (0::nat)\<rparr>, 5, None),
      [Call_MakeRandomTLFCryptKeyServerHalf,
       Call_EncryptTLFCryptKeyClientHalf 100 1000 15,
       Call_GetTLFCryptKeyServerHalfID 1 1000 5])"
  using SplitTLFCryptKey_success [where ?'ufs = nat, of stub_crypto 5 100 1000 "\<lambda>s k. s + k" 10 1115 1 "\<lparr>ID = 1006\<rparr>" 7]
  by (simp add: stub_crypto_def)

text \<open>
  C5: when a step fails, \<^verbatim>\<open>SplitTLFCryptKey\<close> returns the error of that step
  unchanged, with the zero key info and the zero server half, and the log of the
  interface calls ends with the failing call: no later step is made.
\<close>

theorem SplitTLFCryptKey_failure:
  "(MakeRandomTLFCryptKeyServerHalf crypto = Inl err \<longrightarrow>
      SplitTLFCryptKey crypto MaskTLFCryptKey uid tlfCryptKey ePrivKey ePubIndex pubKey =
        (((zero_TLFCryptKeyInfo :: (_, _, 'ufs :: zero) TLFCryptKeyInfo), 0, Some err),
         [Call_MakeRandomTLFCryptKeyServerHalf]))
   \<and> (MakeRandomTLFCryptKeyServerHalf crypto = Inr serverHalf \<and>
      EncryptTLFCryptKeyClientHalf crypto ePrivKey pubKey
        (MaskTLFCryptKey serverHalf tlfCryptKey) = Inl err \<longrightarrow>
      SplitTLFCryptKey crypto MaskTLFCryptKey uid tlfCryptKey ePrivKey ePubIndex pubKey =
        ((zero_TLFCryptKeyInfo, 0, Some err),
         [Call_MakeRandomTLFCryptKeyServerHalf,
          Call_EncryptTLFCryptKeyClientHalf ePrivKey pubKey
            (MaskTLFCryptKey serverHalf tlfCryptKey)]))
   \<and> (MakeRandomTLFCryptKeyServerHalf crypto = Inr serverHalf \<and>
      EncryptTLFCryptKeyClientHalf crypto ePrivKey pubKey
        (MaskTLFCryptKey serverHalf tlfCryptKey) = Inr encryptedClientHalf \<and>
      GetTLFCryptKeyServerHalfID crypto uid pubKey serverHalf = Inl err \<longrightarrow>
      SplitTLFCryptKey crypto MaskTLFCryptKey uid tlfCryptKey ePrivKey ePubIndex pubKey =
        ((zero_TLFCryptKeyInfo, 0, Some err),
         [Call_MakeRandomTLFCryptKeyServerHalf,
          Call_EncryptTLFCryptKeyClientHalf ePrivKey pubKey
            (MaskTLFCryptKey serverHalf tlfCryptKey),
          Call_GetTLFCryptKeyServerHalfID uid pubKey serverHalf]))"
  by (auto simp: SplitTLFCryptKey_def Let_def split: sum.splits)

theorem SplitTLFCryptKey_failure_witness:
  "SplitTLFCryptKey (failing_crypto 1) (\<lambda>s k. s + k) 1 10 100 7 1000 =
     (((zero_TLFCryptKeyInfo :: (nat, nat, nat) TLFCryptKeyInfo), 0, Some ''random''),
      [Call_MakeRandomTLFCryptKeyServerHalf])
   \<and> SplitTLFCryptKey (failing_crypto 2) (\<lambda>s k. s + k) 1 10 100 7 1000 =
     (((zero_TLFCryptKeyInfo :: (nat, nat, nat) TLFCryptKeyInfo), 0, Some ''encrypt''),
      [Call_MakeRandomTLFCryptKeyServerHalf, Call_EncryptTLFCryptKeyClientHalf 100 1000 15])
   \<and> SplitTLFCryptKey (failing_crypto 3) (\<lambda>s k. s + k) 1 10 100 7 1000 =
     (((zero_TLFCryptKeyInfo :: (nat, nat, nat) TLFCryptKeyInfo), 0, Some ''id''),
      [Call_MakeRandomTLFCryptKeyServerHalf, Call_EncryptTLFCryptKeyClientHalf 100 1000 15,
       Call_GetTLFCryptKeyServerHalfID 1 1000 5])"
  using SplitTLFCryptKey_failure [where ?'ufs = nat, of "failing_crypto 1" "''random''" "\<lambda>s k. s + k" 1 10 100 7 1000 5 0]
        SplitTLFCryptKey_failure [where ?'ufs = nat, of "failing_crypto 2" "''encrypt''" "\<lambda>s k. s + k" 1 10 100 7 1000 5 0]
        SplitTLFCryptKey_failure [where ?'ufs = nat, of "failing_crypto 3" "''id''" "\<lambda>s k. s + k" 1 10 100 7 1000 5 1115]
  by (simp add: failing_crypto_def)

section \<open>Dropping the users without keys\<close>

lemma RemoveKeylessUsersForTest_loop_lookup:
  "fmlookup (RemoveKeylessUsersForTest_loop us udpk acc) u =
     (if u \<in> set us \<and> map_len (udpk_index udpk u) > 0 then Some (udpk_index udpk u)
      else fmlookup acc u)"
  by (induction us arbitrary: acc) (auto simp: Let_def)

lemma udpk_index_Some: "fmlookup m u = Some dpk \<Longrightarrow> udpk_index m u = dpk"
  by (simp add: udpk_index_def)

lemma map_len_pos_iff: "0 < map_len m \<longleftrightarrow> m \<noteq> fmempty"
  using map_len_zero_iff[of m] map_len_nonneg[of m] by linarith

lemma RemoveKeylessUsersForTest_lookup:
  assumes "range_order us m"
  shows "fmlookup (RemoveKeylessUsersForTest us m) u =
     (case fmlookup m u of None \<Rightarrow> None
      | Some dpk \<Rightarrow> if dpk \<noteq> fmempty then Some dpk else None)"
proof (cases "fmlookup m u")
  case None
  then have "u \<notin> set us" using assms by (auto simp: range_order_def fmlookup_dom'_iff)
  then show ?thesis using None
    by (simp add: RemoveKeylessUsersForTest_def RemoveKeylessUsersForTest_loop_lookup)
next
  case (Some dpk)
  then have "u \<in> set us" using assms by (auto simp: range_order_def fmlookup_dom'_iff)
  then show ?thesis using Some
    by (simp add: RemoveKeylessUsersForTest_def RemoveKeylessUsersForTest_loop_lookup
          udpk_index_Some map_len_pos_iff)
qed

text \<open>
  C9: for every \<^verbatim>\<open>UserDevicePublicKeys\<close> \<open>m\<close> and every order of the visit,
  \<^verbatim>\<open>RemoveKeylessUsersForTest\<close> returns a map whose users are exactly the users of
  \<open>m\<close> with a non-empty device map, each with the device map it has in \<open>m\<close>, and
  applying it again returns the same map. The source has no write to \<open>m\<close> nor to a
  device map, so \<open>m\<close> is an argument only and the result is a new value.
\<close>

theorem RemoveKeylessUsersForTest_keeps_nonempty:
  assumes "range_order us m" "range_order us' (RemoveKeylessUsersForTest us m)"
  shows "fmdom' (RemoveKeylessUsersForTest us m) = {u \<in> fmdom' m. udpk_index m u \<noteq> fmempty}
       \<and> (\<forall>u \<in> fmdom' (RemoveKeylessUsersForTest us m).
             fmlookup (RemoveKeylessUsersForTest us m) u = fmlookup m u)
       \<and> RemoveKeylessUsersForTest us' (RemoveKeylessUsersForTest us m) =
           RemoveKeylessUsersForTest us m"
proof -
  let ?r = "RemoveKeylessUsersForTest us m"
  have l: "\<And>u. fmlookup ?r u =
     (case fmlookup m u of None \<Rightarrow> None
      | Some dpk \<Rightarrow> if dpk \<noteq> fmempty then Some dpk else None)"
    using RemoveKeylessUsersForTest_lookup[OF assms(1)] .
  have d: "fmdom' ?r = {u \<in> fmdom' m. udpk_index m u \<noteq> fmempty}"
    by (auto simp: fmlookup_dom'_iff l udpk_index_def split: option.splits if_splits)
  have v: "\<forall>u \<in> fmdom' ?r. fmlookup ?r u = fmlookup m u"
    by (auto simp: fmlookup_dom'_iff l split: option.splits if_splits)
  have "\<And>u. fmlookup (RemoveKeylessUsersForTest us' ?r) u = fmlookup ?r u"
    unfolding RemoveKeylessUsersForTest_lookup[OF assms(2)]
    by (simp add: l split: option.splits)
  then have i: "RemoveKeylessUsersForTest us' ?r = ?r" by (rule fmap_ext)
  show ?thesis using d v i by blast
qed

lemma udpk_example_removed:
  "RemoveKeylessUsersForTest [3, 2] udpk_example = fmupd 2 (fmupd 7 True fmempty) fmempty"
  by (simp add: RemoveKeylessUsersForTest_def udpk_example_def udpk_index_def map_len_def)

theorem RemoveKeylessUsersForTest_keeps_nonempty_witness:
  "range_order [3, 2] udpk_example
   \<and> range_order [2] (RemoveKeylessUsersForTest [3, 2] udpk_example)
   \<and> fmdom' (RemoveKeylessUsersForTest [3, 2] udpk_example) = {2}
   \<and> RemoveKeylessUsersForTest [2] (RemoveKeylessUsersForTest [3, 2] udpk_example) =
       RemoveKeylessUsersForTest [3, 2] udpk_example"
proof -
  have h1: "range_order [3, 2] udpk_example"
    by (auto simp: range_order_def udpk_example_def)
  have h2: "range_order [2] (RemoveKeylessUsersForTest [3, 2] udpk_example)"
    by (simp add: udpk_example_removed range_order_def)
  have d: "fmdom' (RemoveKeylessUsersForTest [3, 2] udpk_example) = {2}"
    by (simp add: udpk_example_removed)
  have i: "RemoveKeylessUsersForTest [2] (RemoveKeylessUsersForTest [3, 2] udpk_example) =
       RemoveKeylessUsersForTest [3, 2] udpk_example"
    using RemoveKeylessUsersForTest_keeps_nonempty[OF h1 h2] by blast
  show ?thesis using h1 h2 d i by (intro conjI)
qed

section \<open>Merging users\<close>

lemma UserDeviceKeyServerHalves_MergeUsers_copy_lookup:
  "fmlookup (UserDeviceKeyServerHalves_MergeUsers_copy us m acc) u =
     (if u \<in> set us then Some (udksh_index m u) else fmlookup acc u)"
  by (induction us arbitrary: acc) auto

lemma UserDeviceKeyServerHalves_MergeUsers_copy_all:
  assumes "range_order us m"
  shows "UserDeviceKeyServerHalves_MergeUsers_copy us m fmempty = m"
proof (rule fmap_ext)
  fix u
  show "fmlookup (UserDeviceKeyServerHalves_MergeUsers_copy us m fmempty) u = fmlookup m u"
    using assms
    by (cases "fmlookup m u")
       (auto simp: UserDeviceKeyServerHalves_MergeUsers_copy_lookup range_order_def
          fmlookup_dom'_iff udksh_index_def)
qed

lemma UserDeviceKeyServerHalves_MergeUsers_add_disjoint:
  "distinct os \<Longrightarrow> set os \<inter> fmdom' merged = {} \<Longrightarrow>
   \<exists>r. UserDeviceKeyServerHalves_MergeUsers_add os other merged = Inr r \<and>
       (\<forall>u. fmlookup r u = (if u \<in> set os then Some (udksh_index other u) else fmlookup merged u))"
proof (induction os arbitrary: merged)
  case Nil
  then show ?case by simp
next
  case (Cons o1 os)
  have n: "fmlookup merged o1 = None" using Cons.prems(2) by (auto simp: fmlookup_dom'_iff)
  have "set os \<inter> fmdom' (fmupd o1 (udksh_index other o1) merged) = {}"
    using Cons.prems by auto
  from Cons.IH[OF _ this] Cons.prems(1) obtain r where
    r: "UserDeviceKeyServerHalves_MergeUsers_add os other (fmupd o1 (udksh_index other o1) merged) = Inr r"
       "\<forall>u. fmlookup r u = (if u \<in> set os then Some (udksh_index other u)
              else fmlookup (fmupd o1 (udksh_index other o1) merged) u)"
    by auto
  show ?case using n r by auto
qed

lemma UserDeviceKeyServerHalves_MergeUsers_add_overlap:
  "distinct os \<Longrightarrow> set os \<inter> fmdom' merged \<noteq> {} \<Longrightarrow>
   \<exists>u \<in> set os \<inter> fmdom' merged.
     UserDeviceKeyServerHalves_MergeUsers_add os other merged =
       Inl (UserInBothUserDeviceKeyServerHalves u)"
proof (induction os arbitrary: merged)
  case Nil
  then show ?case by simp
next
  case (Cons o1 os)
  show ?case
  proof (cases "fmlookup merged o1")
    case (Some d)
    then have "o1 \<in> fmdom' merged" by (simp add: fmdom'I)
    then show ?thesis using Some by auto
  next
    case None
    then have "o1 \<notin> fmdom' merged" by (simp add: fmdom'_notI)
    then have 1: "set os \<inter> fmdom' (fmupd o1 (udksh_index other o1) merged) \<noteq> {}"
      using Cons.prems(2) by auto
    from Cons.IH[OF _ 1] Cons.prems(1) obtain u where
      u: "u \<in> set os" "u \<in> fmdom' (fmupd o1 (udksh_index other o1) merged)"
         "UserDeviceKeyServerHalves_MergeUsers_add os other
            (fmupd o1 (udksh_index other o1) merged) =
          Inl (UserInBothUserDeviceKeyServerHalves u)"
      by auto
    have "u \<noteq> o1" using u(1) Cons.prems(1) by auto
    then have "u \<in> set (o1 # os) \<inter> fmdom' merged" using u(1,2) by auto
    then show ?thesis using None u(3) by auto
  qed
qed

lemma ServerHalfRemovalInfo_MergeUsers_copy_lookup:
  "fmlookup (ServerHalfRemovalInfo_MergeUsers_copy us m acc) u =
     (if u \<in> set us then Some (shri_index m u) else fmlookup acc u)"
  by (induction us arbitrary: acc) auto

lemma ServerHalfRemovalInfo_MergeUsers_copy_all:
  assumes "range_order us m"
  shows "ServerHalfRemovalInfo_MergeUsers_copy us m fmempty = m"
proof (rule fmap_ext)
  fix u
  show "fmlookup (ServerHalfRemovalInfo_MergeUsers_copy us m fmempty) u = fmlookup m u"
    using assms
    by (cases "fmlookup m u")
       (auto simp: ServerHalfRemovalInfo_MergeUsers_copy_lookup range_order_def
          fmlookup_dom'_iff shri_index_def)
qed

lemma ServerHalfRemovalInfo_MergeUsers_add_disjoint:
  "distinct os \<Longrightarrow> set os \<inter> fmdom' merged = {} \<Longrightarrow>
   \<exists>r. ServerHalfRemovalInfo_MergeUsers_add os other merged = Inr r \<and>
       (\<forall>u. fmlookup r u = (if u \<in> set os then Some (shri_index other u) else fmlookup merged u))"
proof (induction os arbitrary: merged)
  case Nil
  then show ?case by simp
next
  case (Cons o1 os)
  have n: "fmlookup merged o1 = None" using Cons.prems(2) by (auto simp: fmlookup_dom'_iff)
  have "set os \<inter> fmdom' (fmupd o1 (shri_index other o1) merged) = {}"
    using Cons.prems by auto
  from Cons.IH[OF _ this] Cons.prems(1) obtain r where
    r: "ServerHalfRemovalInfo_MergeUsers_add os other (fmupd o1 (shri_index other o1) merged) = Inr r"
       "\<forall>u. fmlookup r u = (if u \<in> set os then Some (shri_index other u)
              else fmlookup (fmupd o1 (shri_index other o1) merged) u)"
    by auto
  show ?case using n r by auto
qed

lemma ServerHalfRemovalInfo_MergeUsers_add_overlap:
  "distinct os \<Longrightarrow> set os \<inter> fmdom' merged \<noteq> {} \<Longrightarrow>
   \<exists>u \<in> set os \<inter> fmdom' merged.
     ServerHalfRemovalInfo_MergeUsers_add os other merged =
       Inl (UserInBothServerHalfRemovalInfos u)"
proof (induction os arbitrary: merged)
  case Nil
  then show ?case by simp
next
  case (Cons o1 os)
  show ?case
  proof (cases "fmlookup merged o1")
    case (Some d)
    then have "o1 \<in> fmdom' merged" by (simp add: fmdom'I)
    then show ?thesis using Some by auto
  next
    case None
    then have "o1 \<notin> fmdom' merged" by (simp add: fmdom'_notI)
    then have 1: "set os \<inter> fmdom' (fmupd o1 (shri_index other o1) merged) \<noteq> {}"
      using Cons.prems(2) by auto
    from Cons.IH[OF _ 1] Cons.prems(1) obtain u where
      u: "u \<in> set os" "u \<in> fmdom' (fmupd o1 (shri_index other o1) merged)"
         "ServerHalfRemovalInfo_MergeUsers_add os other
            (fmupd o1 (shri_index other o1) merged) =
          Inl (UserInBothServerHalfRemovalInfos u)"
      by auto
    have "u \<noteq> o1" using u(1) Cons.prems(1) by auto
    then have "u \<in> set (o1 # os) \<inter> fmdom' merged" using u(1,2) by auto
    then show ?thesis using None u(3) by auto
  qed
qed

lemma udksh_index_dom: "u \<in> fmdom' m \<Longrightarrow> Some (udksh_index m u) = fmlookup m u"
  by (auto simp: udksh_index_def fmlookup_dom'_iff)

lemma shri_index_dom: "u \<in> fmdom' m \<Longrightarrow> Some (shri_index m u) = fmlookup m u"
  by (auto simp: shri_index_def fmlookup_dom'_iff)

text \<open>
  C8: for \<^verbatim>\<open>UserDeviceKeyServerHalves.MergeUsers\<close> and for
  \<^verbatim>\<open>ServerHalfRemovalInfo.MergeUsers\<close>, and every order of the visits: when the two
  operands have no user in common, the call returns a map whose users are those of
  both operands, each with the payload it has in its operand; when they have a user
  in common, the call returns no map and an error that names a user present in both.
\<close>

theorem MergeUsers_disjoint_or_error:
  assumes "range_order us a" "range_order os b" "range_order us' info" "range_order os' other"
  shows "(fmdom' a \<inter> fmdom' b = {} \<longrightarrow>
            (\<exists>merged. UserDeviceKeyServerHalves_MergeUsers us os a b = Inr merged
               \<and> fmdom' merged = fmdom' a \<union> fmdom' b
               \<and> (\<forall>u \<in> fmdom' a. fmlookup merged u = fmlookup a u)
               \<and> (\<forall>u \<in> fmdom' b. fmlookup merged u = fmlookup b u)))
       \<and> (fmdom' a \<inter> fmdom' b \<noteq> {} \<longrightarrow>
            (\<exists>u \<in> fmdom' a \<inter> fmdom' b.
               UserDeviceKeyServerHalves_MergeUsers us os a b =
                 Inl (UserInBothUserDeviceKeyServerHalves u)))
       \<and> (fmdom' info \<inter> fmdom' other = {} \<longrightarrow>
            (\<exists>merged. ServerHalfRemovalInfo_MergeUsers us' os' info other = Inr merged
               \<and> fmdom' merged = fmdom' info \<union> fmdom' other
               \<and> (\<forall>u \<in> fmdom' info. fmlookup merged u = fmlookup info u)
               \<and> (\<forall>u \<in> fmdom' other. fmlookup merged u = fmlookup other u)))
       \<and> (fmdom' info \<inter> fmdom' other \<noteq> {} \<longrightarrow>
            (\<exists>u \<in> fmdom' info \<inter> fmdom' other.
               ServerHalfRemovalInfo_MergeUsers us' os' info other =
                 Inl (UserInBothServerHalfRemovalInfos u)))"
proof -
  have d1: "distinct os" "set os = fmdom' b" using assms(2) by (auto simp: range_order_def)
  have d2: "distinct os'" "set os' = fmdom' other" using assms(4) by (auto simp: range_order_def)
  have 1: "\<exists>merged. UserDeviceKeyServerHalves_MergeUsers us os a b = Inr merged
               \<and> fmdom' merged = fmdom' a \<union> fmdom' b
               \<and> (\<forall>u \<in> fmdom' a. fmlookup merged u = fmlookup a u)
               \<and> (\<forall>u \<in> fmdom' b. fmlookup merged u = fmlookup b u)"
    if dis: "fmdom' a \<inter> fmdom' b = {}"
  proof -
    from UserDeviceKeyServerHalves_MergeUsers_add_disjoint[of os a b] d1 dis
    obtain r where r: "UserDeviceKeyServerHalves_MergeUsers_add os b a = Inr r"
      "\<And>u. fmlookup r u = (if u \<in> fmdom' b then Some (udksh_index b u) else fmlookup a u)"
      by (auto simp: Int_commute)
    have l: "\<And>u. fmlookup r u = (if u \<in> fmdom' b then fmlookup b u else fmlookup a u)"
      using r(2) by (simp add: udksh_index_dom)
    have "fmdom' r = fmdom' a \<union> fmdom' b"
      by (auto simp: fmlookup_dom'_iff l split: if_splits)
    moreover have "\<forall>u \<in> fmdom' a. fmlookup r u = fmlookup a u" using dis l by auto
    moreover have "\<forall>u \<in> fmdom' b. fmlookup r u = fmlookup b u" using l by auto
    ultimately show ?thesis using r(1)
      by (simp add: UserDeviceKeyServerHalves_MergeUsers_def
            UserDeviceKeyServerHalves_MergeUsers_copy_all[OF assms(1)])
  qed
  have 2: "\<exists>u \<in> fmdom' a \<inter> fmdom' b.
               UserDeviceKeyServerHalves_MergeUsers us os a b =
                 Inl (UserInBothUserDeviceKeyServerHalves u)"
    if "fmdom' a \<inter> fmdom' b \<noteq> {}"
    using UserDeviceKeyServerHalves_MergeUsers_add_overlap[of os a b] d1 that
    by (auto simp: UserDeviceKeyServerHalves_MergeUsers_def Int_commute
          UserDeviceKeyServerHalves_MergeUsers_copy_all[OF assms(1)])
  have 3: "\<exists>merged. ServerHalfRemovalInfo_MergeUsers us' os' info other = Inr merged
               \<and> fmdom' merged = fmdom' info \<union> fmdom' other
               \<and> (\<forall>u \<in> fmdom' info. fmlookup merged u = fmlookup info u)
               \<and> (\<forall>u \<in> fmdom' other. fmlookup merged u = fmlookup other u)"
    if dis: "fmdom' info \<inter> fmdom' other = {}"
  proof -
    from ServerHalfRemovalInfo_MergeUsers_add_disjoint[of os' info other] d2 dis
    obtain r where r: "ServerHalfRemovalInfo_MergeUsers_add os' other info = Inr r"
      "\<And>u. fmlookup r u = (if u \<in> fmdom' other then Some (shri_index other u) else fmlookup info u)"
      by (auto simp: Int_commute)
    have l: "\<And>u. fmlookup r u = (if u \<in> fmdom' other then fmlookup other u else fmlookup info u)"
      using r(2) by (simp add: shri_index_dom)
    have "fmdom' r = fmdom' info \<union> fmdom' other"
      by (auto simp: fmlookup_dom'_iff l split: if_splits)
    moreover have "\<forall>u \<in> fmdom' info. fmlookup r u = fmlookup info u" using dis l by auto
    moreover have "\<forall>u \<in> fmdom' other. fmlookup r u = fmlookup other u" using l by auto
    ultimately show ?thesis using r(1)
      by (simp add: ServerHalfRemovalInfo_MergeUsers_def
            ServerHalfRemovalInfo_MergeUsers_copy_all[OF assms(3)])
  qed
  have 4: "\<exists>u \<in> fmdom' info \<inter> fmdom' other.
               ServerHalfRemovalInfo_MergeUsers us' os' info other =
                 Inl (UserInBothServerHalfRemovalInfos u)"
    if "fmdom' info \<inter> fmdom' other \<noteq> {}"
    using ServerHalfRemovalInfo_MergeUsers_add_overlap[of os' info other] d2 that
    by (auto simp: ServerHalfRemovalInfo_MergeUsers_def Int_commute
          ServerHalfRemovalInfo_MergeUsers_copy_all[OF assms(3)])
  show ?thesis using 1 2 3 4 by blast
qed

theorem MergeUsers_disjoint_or_error_witness:
  "UserDeviceKeyServerHalves_MergeUsers [2] [3] halves_A halves_B =
     (Inr (fmupd 3 (fmupd 8 12 fmempty) (fmupd 2 (fmupd 7 11 fmempty) fmempty))
        :: (nat, nat) error + _)
   \<and> UserDeviceKeyServerHalves_MergeUsers [2] [2] halves_A halves_A' =
     (Inl (UserInBothUserDeviceKeyServerHalves 2) :: (nat, nat) error + _)
   \<and> ServerHalfRemovalInfo_MergeUsers [2] [3] removal_A removal_B =
     (Inr (fmupd 3 \<lparr>UserRemoved = True, DeviceServerHalfIDs = MapRef 2\<rparr> removal_A)
        :: (nat, nat) error + _)
   \<and> ServerHalfRemovalInfo_MergeUsers [2] [2] removal_A removal_A' =
     (Inl (UserInBothServerHalfRemovalInfos 2) :: (nat, nat) error + _)"
proof -
  have a: "range_order [2] halves_A" "range_order [3] halves_B" "range_order [2] halves_A'"
    by (simp_all add: range_order_def halves_A_def halves_B_def halves_A'_def)
  have r: "range_order [2] removal_A" "range_order [3] removal_B" "range_order [2] removal_A'"
    by (simp_all add: range_order_def removal_A_def removal_B_def removal_A'_def)
  show ?thesis
    using MergeUsers_disjoint_or_error[OF a(1) a(2) r(1) r(2)]
          MergeUsers_disjoint_or_error[OF a(1) a(3) r(1) r(3)]
    by (simp add: UserDeviceKeyServerHalves_MergeUsers_def ServerHalfRemovalInfo_MergeUsers_def
          halves_A_def halves_B_def halves_A'_def removal_A_def removal_B_def removal_A'_def
          udksh_index_def shri_index_def)
qed

section \<open>Equality of rosters\<close>

text \<open>
  What \<^verbatim>\<open>UserDevicePublicKeys.Equals\<close> computes: the two maps have the same number
  of users, and the device map of every user of the receiver equals what \<^verbatim>\<open>other[u]\<close>
  reads.
\<close>

lemma UserDevicePublicKeys_Equals_loop_iff:
  "UserDevicePublicKeys_Equals_loop us ko a b \<longleftrightarrow>
     (\<forall>u \<in> set us. DevicePublicKeys_Equals (ko u) (udpk_index a u) (udpk_index b u))"
  by (induction us) (auto simp: Let_def)

lemma UserDevicePublicKeys_Equals_iff:
  assumes "range_order us a"
  shows "UserDevicePublicKeys_Equals us ko a b \<longleftrightarrow>
     (map_len a = map_len b \<and>
      (\<forall>u \<in> fmdom' a. DevicePublicKeys_Equals (ko u) (udpk_index a u) (udpk_index b u)))"
  using assms
  by (simp add: UserDevicePublicKeys_Equals_def UserDevicePublicKeys_Equals_loop_iff
        range_order_def)

lemma DevicePublicKeys_Equals_len:
  "DevicePublicKeys_Equals ks dpk other \<Longrightarrow> map_len dpk = map_len other"
  by (simp add: DevicePublicKeys_Equals_def split: if_splits)

text \<open>
  Where every user of the receiver holds a device, rosters that compare equal have
  the same users.
\<close>

lemma UserDevicePublicKeys_Equals_same_users:
  assumes us: "range_order us a"
    and ne: "\<forall>u \<in> fmdom' a. udpk_index a u \<noteq> fmempty"
    and eq: "UserDevicePublicKeys_Equals us ko a b"
  shows "fmdom' a = fmdom' b"
proof -
  have len: "map_len a = map_len b"
    and all: "\<forall>u \<in> fmdom' a. DevicePublicKeys_Equals (ko u) (udpk_index a u) (udpk_index b u)"
    using eq UserDevicePublicKeys_Equals_iff[OF us, of ko b] by auto
  have "u \<in> fmdom' b" if u: "u \<in> fmdom' a" for u
  proof (rule ccontr)
    assume "u \<notin> fmdom' b"
    then have "udpk_index b u = fmempty" by (auto simp: udpk_index_def)
    then have "map_len (udpk_index a u) = 0"
      using DevicePublicKeys_Equals_len all u by (metis map_len_empty)
    then show False using ne u by (simp add: map_len_zero_iff)
  qed
  then show ?thesis using same_len_subset[OF len] by blast
qed

text \<open>
  C6 says that \<^verbatim>\<open>Equals\<close> returns true only for rosters with the same user set,
  and so does the doc comment of the function. The code compares the number of
  users, then each device map of the receiver with \<^verbatim>\<open>other[u]\<close>, the nil map for a
  user that \<open>other\<close> does not have: a roster whose only user \<open>2\<close> holds no device
  and a roster whose only user \<open>3\<close> holds no device compare equal.
\<close>

theorem UserDevicePublicKeys_Equals_keyless_users:
  "range_order [2] keyless_A
   \<and> range_order [] (udpk_index keyless_A 2)
   \<and> fmdom' keyless_A = {2} \<and> fmdom' keyless_B = {3}
   \<and> UserDevicePublicKeys_Equals [2] (\<lambda>u. []) keyless_A keyless_B"
  by (simp add: range_order_def keyless_A_def keyless_B_def udpk_index_def
        UserDevicePublicKeys_Equals_def DevicePublicKeys_Equals_def map_len_def)

section \<open>The fold on lists: the loop over the devices of a user\<close>

lemma dshri_index_val_upd_other:
  "k \<noteq> key \<Longrightarrow> dshri_index_val (fmupd key v dsh) k = dshri_index_val dsh k"
  by (simp add: dshri_index_val_def)

lemma loop_ok_upd:
  assumes "key \<notin> set ks"
  shows "loop_ok ks gen c (fmupd key v dsh) = loop_ok ks gen c dsh"
proof -
  have ne: "k \<noteq> key" if "k \<in> set ks" for k using that assms by auto
  have "dshri_index_val (fmupd key v dsh) k = dshri_index_val dsh k" if "k \<in> set ks" for k
    using ne[OF that] by (simp add: dshri_index_val_upd_other)
  moreover have "k \<in> fmdom' (fmupd key v dsh) \<longleftrightarrow> k \<in> fmdom' dsh" if "k \<in> set ks" for k
    using ne[OF that] by auto
  ultimately show ?thesis unfolding loop_ok_def by simp
qed

lemma loop_ok_Cons:
  "loop_ok (key # ks) gen c dsh \<longleftrightarrow>
     (c = - 1 \<or> int (length (dshri_index_val dsh key)) = c) \<and>
     length (dshri_index_val gen key) = 1 \<and> key \<in> fmdom' dsh \<and>
     loop_ok ks gen (if c = - 1 then int (length (dshri_index_val dsh key)) else c) dsh"
  unfolding loop_ok_def by (cases "c = - 1") auto

lemma addGeneration_loop_val_ok:
  "distinct ks \<Longrightarrow> fst (addGeneration_loop_val ks uid gen c dsh) = None \<longleftrightarrow> loop_ok ks gen c dsh"
proof (induction ks arbitrary: c dsh)
  case Nil
  then show ?case by (simp add: loop_ok_def)
next
  case (Cons key ks)
  let ?l = "int (length (dshri_index_val dsh key))"
  let ?c' = "if c = - 1 then ?l else c"
  let ?dsh' = "fmupd key (dshri_index_val dsh key @ [dshri_index_val gen key ! 0]) dsh"
  have d: "distinct ks" "key \<notin> set ks" using Cons.prems by auto
  have ih: "fst (addGeneration_loop_val ks uid gen ?c' ?dsh') = None \<longleftrightarrow> loop_ok ks gen ?c' dsh"
    using Cons.IH[OF d(1)] by (simp add: loop_ok_upd[OF d(2)])
  show ?case
    unfolding loop_ok_Cons
    using ih by (auto simp: Let_def fmlookup_dom'_iff)
qed

lemma singleton_nth0: "length xs = 1 \<Longrightarrow> [xs ! 0] = xs"
  by (cases xs) auto

lemma addGeneration_loop_val_dom:
  "fmdom' (snd (addGeneration_loop_val ks uid gen c dsh)) = fmdom' dsh"
proof (induction ks arbitrary: c dsh)
  case Nil
  then show ?case by simp
next
  case (Cons key ks)
  show ?case
    by (auto simp: Let_def Cons.IH fmlookup_dom'_iff)
qed

lemma addGeneration_loop_val_lookup:
  "distinct ks \<Longrightarrow>
   fmlookup (snd (addGeneration_loop_val ks uid gen c dsh)) k = fmlookup dsh k \<or>
   (k \<in> set ks \<and> length (dshri_index_val gen k) = 1 \<and> k \<in> fmdom' dsh \<and>
    fmlookup (snd (addGeneration_loop_val ks uid gen c dsh)) k =
      Some (dshri_index_val dsh k @ dshri_index_val gen k))"
proof (induction ks arbitrary: c dsh)
  case Nil
  then show ?case by simp
next
  case (Cons key ks)
  let ?l = "int (length (dshri_index_val dsh key))"
  let ?c' = "if c = - 1 then ?l else c"
  let ?dsh' = "fmupd key (dshri_index_val dsh key @ [dshri_index_val gen key ! 0]) dsh"
  have d: "distinct ks" "key \<notin> set ks" using Cons.prems by auto
  show ?case
  proof (cases "(c \<noteq> - 1 \<and> ?l \<noteq> c) \<or> length (dshri_index_val gen key) \<noteq> 1
                \<or> fmlookup dsh key = None")
    case True
    then show ?thesis by (auto simp: Let_def)
  next
    case False
    then have one: "length (dshri_index_val gen key) = 1" and pres: "key \<in> fmdom' dsh"
      by (auto simp: fmlookup_dom'_iff)
    have step: "addGeneration_loop_val (key # ks) uid gen c dsh =
                addGeneration_loop_val ks uid gen ?c' ?dsh'"
      using False by (auto simp: Let_def)
    have upd: "?dsh' = fmupd key (dshri_index_val dsh key @ dshri_index_val gen key) dsh"
      using singleton_nth0[OF one] by simp
    from Cons.IH[OF d(1), of ?c' ?dsh'] show ?thesis
    proof
      assume "fmlookup (snd (addGeneration_loop_val ks uid gen ?c' ?dsh')) k = fmlookup ?dsh' k"
      then show ?thesis unfolding step using one pres upd by (cases "k = key") auto
    next
      assume a: "k \<in> set ks \<and> length (dshri_index_val gen k) = 1 \<and> k \<in> fmdom' ?dsh' \<and>
        fmlookup (snd (addGeneration_loop_val ks uid gen ?c' ?dsh')) k =
          Some (dshri_index_val ?dsh' k @ dshri_index_val gen k)"
      then have "k \<noteq> key" using d(2) by auto
      then show ?thesis unfolding step using a by (auto simp: dshri_index_val_upd_other)
    qed
  qed
qed

lemma addGeneration_loop_val_result:
  "distinct ks \<Longrightarrow> fst (addGeneration_loop_val ks uid gen c dsh) = None \<Longrightarrow>
   fmlookup (snd (addGeneration_loop_val ks uid gen c dsh)) k =
     (if k \<in> set ks then Some (dshri_index_val dsh k @ dshri_index_val gen k) else fmlookup dsh k)"
proof (induction ks arbitrary: c dsh)
  case Nil
  then show ?case by simp
next
  case (Cons key ks)
  let ?l = "int (length (dshri_index_val dsh key))"
  let ?c' = "if c = - 1 then ?l else c"
  let ?dsh' = "fmupd key (dshri_index_val dsh key @ [dshri_index_val gen key ! 0]) dsh"
  have d: "distinct ks" "key \<notin> set ks" using Cons.prems by auto
  have ok: "\<not> ((c \<noteq> - 1 \<and> ?l \<noteq> c) \<or> length (dshri_index_val gen key) \<noteq> 1
                \<or> fmlookup dsh key = None)"
    using Cons.prems(2) by (auto simp: Let_def split: if_splits)
  then have one: "length (dshri_index_val gen key) = 1" by auto
  have step: "addGeneration_loop_val (key # ks) uid gen c dsh =
              addGeneration_loop_val ks uid gen ?c' ?dsh'"
    using ok by (auto simp: Let_def)
  have upd: "?dsh' = fmupd key (dshri_index_val dsh key @ dshri_index_val gen key) dsh"
    using singleton_nth0[OF one] by simp
  have "fst (addGeneration_loop_val ks uid gen ?c' ?dsh') = None"
    using Cons.prems(2) unfolding step .
  from Cons.IH[OF d(1) this] show ?case
    unfolding step using d(2) upd by (auto simp: dshri_index_val_upd_other)
qed


section \<open>The fold on lists: one user, and the loop over the users\<close>

lemma addGeneration_val_ok:
  "distinct ks \<Longrightarrow> fst (addGeneration_val ks ri uid genInfo) = None \<longleftrightarrow> user_ok ks ri genInfo"
  using addGeneration_loop_val_ok[of ks uid "DeviceServerHalfIDs_val genInfo" "- 1" "DeviceServerHalfIDs_val ri"]
  by (auto simp: addGeneration_val_def user_ok_def split: prod.splits)

lemma addGeneration_val_snd:
  "snd (addGeneration_val ks ri uid genInfo) = ri \<or>
   snd (addGeneration_val ks ri uid genInfo) =
     ri\<lparr>DeviceServerHalfIDs_val :=
          snd (addGeneration_loop_val ks uid (DeviceServerHalfIDs_val genInfo) (- 1)
                 (DeviceServerHalfIDs_val ri))\<rparr>"
  by (auto simp: addGeneration_val_def split: prod.splits)

lemma addGeneration_val_flag:
  "UserRemoved_val (snd (addGeneration_val ks ri uid genInfo)) = UserRemoved_val ri"
  using addGeneration_val_snd[of ks ri uid genInfo] by auto

lemma addGeneration_val_dom:
  "fmdom' (DeviceServerHalfIDs_val (snd (addGeneration_val ks ri uid genInfo))) =
   fmdom' (DeviceServerHalfIDs_val ri)"
  using addGeneration_val_snd[of ks ri uid genInfo] by (auto simp: addGeneration_loop_val_dom)

lemma addGeneration_val_lookup:
  assumes "distinct ks"
  shows "fmlookup (DeviceServerHalfIDs_val (snd (addGeneration_val ks ri uid genInfo))) k =
           fmlookup (DeviceServerHalfIDs_val ri) k \<or>
         (k \<in> set ks \<and> length (dshri_index_val (DeviceServerHalfIDs_val genInfo) k) = 1 \<and>
          k \<in> fmdom' (DeviceServerHalfIDs_val ri) \<and>
          fmlookup (DeviceServerHalfIDs_val (snd (addGeneration_val ks ri uid genInfo))) k =
            Some (dshri_index_val (DeviceServerHalfIDs_val ri) k @
                  dshri_index_val (DeviceServerHalfIDs_val genInfo) k))"
  using addGeneration_val_snd[of ks ri uid genInfo]
        addGeneration_loop_val_lookup[OF assms, of uid "DeviceServerHalfIDs_val genInfo" "- 1"
          "DeviceServerHalfIDs_val ri" k]
  by auto

lemma addGeneration_val_result:
  assumes "distinct ks" "fst (addGeneration_val ks ri uid genInfo) = None"
  shows "fmlookup (DeviceServerHalfIDs_val (snd (addGeneration_val ks ri uid genInfo))) k =
     (if k \<in> set ks
      then Some (dshri_index_val (DeviceServerHalfIDs_val ri) k @
                 dshri_index_val (DeviceServerHalfIDs_val genInfo) k)
      else fmlookup (DeviceServerHalfIDs_val ri) k)"
proof -
  have f: "fst (addGeneration_loop_val ks uid (DeviceServerHalfIDs_val genInfo) (- 1)
                 (DeviceServerHalfIDs_val ri)) = None"
    using assms(2) by (auto simp: addGeneration_val_def split: prod.splits if_splits)
  have s: "snd (addGeneration_val ks ri uid genInfo) =
     ri\<lparr>DeviceServerHalfIDs_val :=
          snd (addGeneration_loop_val ks uid (DeviceServerHalfIDs_val genInfo) (- 1)
                 (DeviceServerHalfIDs_val ri))\<rparr>"
    using assms(2) by (auto simp: addGeneration_val_def split: prod.splits if_splits)
  show ?thesis unfolding s using addGeneration_loop_val_result[OF assms(1) f] by simp
qed

lemma addGeneration_val_error:
  assumes "distinct ks" "fst (addGeneration_val ks ri uid genInfo) = Some e"
  shows "(e = UserRemovedMismatch (UserRemoved_val ri) (UserRemoved_val genInfo) uid \<and>
            UserRemoved_val ri \<noteq> UserRemoved_val genInfo)
       \<or> (e = DeviceCountMismatch (map_len (DeviceServerHalfIDs_val ri))
                 (map_len (DeviceServerHalfIDs_val genInfo)) uid \<and>
            map_len (DeviceServerHalfIDs_val ri) \<noteq> map_len (DeviceServerHalfIDs_val genInfo))
       \<or> fst (addGeneration_loop_val ks uid (DeviceServerHalfIDs_val genInfo) (- 1)
                 (DeviceServerHalfIDs_val ri)) = Some e"
  using assms(2) by (auto simp: addGeneration_val_def split: prod.splits if_splits)

lemma AddGeneration_loop_val_step:
  "fmlookup info uid = Some ri \<Longrightarrow>
   fst (addGeneration_val (ko uid) ri uid (shri_index_val genInfo uid)) = None \<Longrightarrow>
   AddGeneration_loop_val (uid # uids) ko genInfo info =
     AddGeneration_loop_val uids ko genInfo
       (fmupd uid (snd (addGeneration_val (ko uid) ri uid (shri_index_val genInfo uid))) info)"
  by (auto simp: Let_def split: prod.splits option.splits)

lemma AddGeneration_loop_val_stop:
  "fmlookup info uid = Some ri \<Longrightarrow>
   fst (addGeneration_val (ko uid) ri uid (shri_index_val genInfo uid)) = Some e \<Longrightarrow>
   AddGeneration_loop_val (uid # uids) ko genInfo info =
     (Some e, fmupd uid (snd (addGeneration_val (ko uid) ri uid (shri_index_val genInfo uid))) info)"
  by (auto simp: Let_def split: prod.splits option.splits)

lemma AddGeneration_loop_val_missing:
  "fmlookup info uid = None \<Longrightarrow>
   AddGeneration_loop_val (uid # uids) ko genInfo info = (Some (NoGenerationInfoForUser uid), info)"
  by (simp add: Let_def)

lemma AddGeneration_loop_val_ok:
  "distinct us \<Longrightarrow> (\<forall>u \<in> set us. distinct (ko u)) \<Longrightarrow>
   fst (AddGeneration_loop_val us ko genInfo info) = None \<longleftrightarrow>
     (\<forall>u \<in> set us. \<exists>ri. fmlookup info u = Some ri \<and> user_ok (ko u) ri (shri_index_val genInfo u))"
proof (induction us arbitrary: info)
  case Nil
  then show ?case by simp
next
  case (Cons uid us)
  have d: "distinct us" "uid \<notin> set us" "\<forall>u \<in> set us. distinct (ko u)" "distinct (ko uid)"
    using Cons.prems by auto
  show ?case
  proof (cases "fmlookup info uid")
    case None
    then show ?thesis by (auto simp: AddGeneration_loop_val_missing)
  next
    case (Some ri)
    let ?r = "addGeneration_val (ko uid) ri uid (shri_index_val genInfo uid)"
    show ?thesis
    proof (cases "fst ?r")
      case None
      have ok: "user_ok (ko uid) ri (shri_index_val genInfo uid)"
        using None addGeneration_val_ok[OF d(4), of ri uid "shri_index_val genInfo uid"] by simp
      have same: "fmlookup (fmupd uid (snd ?r) info) u = fmlookup info u" if "u \<in> set us" for u
        using that d(2) by auto
      have "fst (AddGeneration_loop_val (uid # us) ko genInfo info) = None \<longleftrightarrow>
            fst (AddGeneration_loop_val us ko genInfo (fmupd uid (snd ?r) info)) = None"
        unfolding AddGeneration_loop_val_step[of info uid ri ko genInfo us, OF Some None] ..
      also have "\<dots> \<longleftrightarrow> (\<forall>u \<in> set us. \<exists>ri. fmlookup (fmupd uid (snd ?r) info) u = Some ri \<and>
                    user_ok (ko u) ri (shri_index_val genInfo u))"
        by (rule Cons.IH[OF d(1) d(3)])
      also have "\<dots> \<longleftrightarrow> (\<forall>u \<in> set us. \<exists>ri. fmlookup info u = Some ri \<and>
                    user_ok (ko u) ri (shri_index_val genInfo u))"
        by (rule ball_cong[OF refl]) (simp only: same)
      also have "\<dots> \<longleftrightarrow> (\<forall>u \<in> set (uid # us). \<exists>ri. fmlookup info u = Some ri \<and>
                    user_ok (ko u) ri (shri_index_val genInfo u))"
        using ok Some by simp
      finally show ?thesis .
    next
      case (Some e)
      have "\<not> user_ok (ko uid) ri (shri_index_val genInfo uid)"
        using Some addGeneration_val_ok[OF d(4), of ri uid "shri_index_val genInfo uid"] by simp
      then show ?thesis
        unfolding AddGeneration_loop_val_stop[of info uid ri ko genInfo _ us, OF \<open>fmlookup info uid = Some ri\<close> Some]
        using \<open>fmlookup info uid = Some ri\<close> by auto
    qed
  qed
qed

lemma AddGeneration_loop_val_lookup:
  "distinct us \<Longrightarrow>
   fmlookup (snd (AddGeneration_loop_val us ko genInfo info)) u = fmlookup info u \<or>
   (u \<in> set us \<and>
    (\<exists>ri. fmlookup info u = Some ri \<and>
       fmlookup (snd (AddGeneration_loop_val us ko genInfo info)) u =
         Some (snd (addGeneration_val (ko u) ri u (shri_index_val genInfo u)))))"
proof (induction us arbitrary: info)
  case Nil
  then show ?case by simp
next
  case (Cons uid us)
  have d: "distinct us" "uid \<notin> set us" using Cons.prems by auto
  show ?case
  proof (cases "fmlookup info uid")
    case None
    then show ?thesis by (simp add: AddGeneration_loop_val_missing)
  next
    case (Some ri)
    let ?r = "addGeneration_val (ko uid) ri uid (shri_index_val genInfo uid)"
    let ?info' = "fmupd uid (snd ?r) info"
    show ?thesis
    proof (cases "fst ?r")
      case None
      note step = AddGeneration_loop_val_step[of info uid ri ko genInfo us, OF Some None]
      from Cons.IH[OF d(1), of ?info'] show ?thesis
      proof
        assume "fmlookup (snd (AddGeneration_loop_val us ko genInfo ?info')) u = fmlookup ?info' u"
        then show ?thesis unfolding step using Some by (cases "u = uid") auto
      next
        assume a: "u \<in> set us \<and>
          (\<exists>ri. fmlookup ?info' u = Some ri \<and>
             fmlookup (snd (AddGeneration_loop_val us ko genInfo ?info')) u =
               Some (snd (addGeneration_val (ko u) ri u (shri_index_val genInfo u))))"
        then have "u \<noteq> uid" using d(2) by auto
        then show ?thesis unfolding step using a by auto
      qed
    next
      case (Some e)
      show ?thesis
        unfolding AddGeneration_loop_val_stop[of info uid ri ko genInfo _ us, OF \<open>fmlookup info uid = Some ri\<close> Some]
        using \<open>fmlookup info uid = Some ri\<close> by (cases "u = uid") auto
    qed
  qed
qed

lemma AddGeneration_loop_val_result:
  "distinct us \<Longrightarrow> fst (AddGeneration_loop_val us ko genInfo info) = None \<Longrightarrow>
   fmlookup (snd (AddGeneration_loop_val us ko genInfo info)) u =
     (if u \<in> set us
      then Some (snd (addGeneration_val (ko u) (shri_index_val info u) u (shri_index_val genInfo u)))
      else fmlookup info u)"
proof (induction us arbitrary: info)
  case Nil
  then show ?case by simp
next
  case (Cons uid us)
  have d: "distinct us" "uid \<notin> set us" using Cons.prems by auto
  obtain ri where ri: "fmlookup info uid = Some ri"
    using Cons.prems(2) by (cases "fmlookup info uid") (auto simp: AddGeneration_loop_val_missing)
  let ?r = "addGeneration_val (ko uid) ri uid (shri_index_val genInfo uid)"
  let ?info' = "fmupd uid (snd ?r) info"
  have none: "fst ?r = None"
  proof (cases "fst ?r")
    case (Some e)
    show ?thesis
      using Cons.prems(2)
      unfolding AddGeneration_loop_val_stop[of info uid ri ko genInfo e us, OF ri Some] by simp
  qed simp
  note step = AddGeneration_loop_val_step[of info uid ri ko genInfo us, OF ri none]
  have "fst (AddGeneration_loop_val us ko genInfo ?info') = None"
    using Cons.prems(2) unfolding step .
  from Cons.IH[OF d(1) this] show ?case
    unfolding step using d(2) ri by (auto simp: shri_index_val_def)
qed


section \<open>The structural conditions and the checks of the fold\<close>

lemma shri_index_val_Some: "fmlookup m u = Some ri \<Longrightarrow> shri_index_val m u = ri"
  by (simp add: shri_index_val_def)

lemma same_len_subset_dom:
  assumes "map_len a = map_len b" "\<forall>k \<in> fmdom' b. k \<in> fmdom' a"
  shows "fmdom' a = fmdom' b"
  using same_len_subset[of b a] assms by auto

lemma loop_ok_init:
  "loop_ok ks gen (- 1) dsh \<longleftrightarrow>
     (\<forall>k \<in> set ks. length (dshri_index_val gen k) = 1 \<and> k \<in> fmdom' dsh) \<and>
     (\<forall>k \<in> set ks. \<forall>k' \<in> set ks.
         length (dshri_index_val dsh k) = length (dshri_index_val dsh k'))"
  by (simp add: loop_ok_def)

lemma structural_ok_valD:
  assumes "structural_ok_val info genInfo"
  shows "map_len info = map_len genInfo"
    and "uid \<in> fmdom' genInfo \<Longrightarrow> uid \<in> fmdom' info"
    and "uid \<in> fmdom' genInfo \<Longrightarrow>
           UserRemoved_val (shri_index_val info uid) = UserRemoved_val (shri_index_val genInfo uid)"
    and "uid \<in> fmdom' genInfo \<Longrightarrow>
           map_len (DeviceServerHalfIDs_val (shri_index_val info uid)) =
           map_len (DeviceServerHalfIDs_val (shri_index_val genInfo uid))"
    and "uid \<in> fmdom' genInfo \<Longrightarrow>
           key \<in> fmdom' (DeviceServerHalfIDs_val (shri_index_val genInfo uid)) \<Longrightarrow>
           key \<in> fmdom' (DeviceServerHalfIDs_val (shri_index_val info uid))"
    and "uid \<in> fmdom' info \<Longrightarrow>
           key \<in> fmdom' (DeviceServerHalfIDs_val (shri_index_val info uid)) \<Longrightarrow>
           key' \<in> fmdom' (DeviceServerHalfIDs_val (shri_index_val info uid)) \<Longrightarrow>
           length (dshri_index_val (DeviceServerHalfIDs_val (shri_index_val info uid)) key) =
           length (dshri_index_val (DeviceServerHalfIDs_val (shri_index_val info uid)) key')"
    and "uid \<in> fmdom' genInfo \<Longrightarrow>
           key \<in> fmdom' (DeviceServerHalfIDs_val (shri_index_val genInfo uid)) \<Longrightarrow>
           length (dshri_index_val (DeviceServerHalfIDs_val (shri_index_val genInfo uid)) key) = 1"
  using assms unfolding structural_ok_val_def by blast+

lemma structural_ok_val_users:
  assumes us: "range_order us genInfo"
    and ko: "\<forall>uid \<in> fmdom' genInfo.
               range_order (ko uid) (DeviceServerHalfIDs_val (shri_index_val genInfo uid))"
  shows "structural_ok_val info genInfo \<longleftrightarrow>
     (map_len info = map_len genInfo \<and>
      (\<forall>u \<in> set us. \<exists>ri. fmlookup info u = Some ri \<and>
                        user_ok (ko u) ri (shri_index_val genInfo u)))"
proof
  assume s: "structural_ok_val info genInfo"
  have "\<exists>ri. fmlookup info u = Some ri \<and> user_ok (ko u) ri (shri_index_val genInfo u)"
    if u: "u \<in> set us" for u
  proof -
    have ug: "u \<in> fmdom' genInfo" using u us by (simp add: range_order_def)
    then have ui: "u \<in> fmdom' info" using s by (simp add: structural_ok_val_def)
    then obtain ri where ri: "fmlookup info u = Some ri" by (auto simp: fmlookup_dom'_iff)
    have idx: "shri_index_val info u = ri" by (rule shri_index_val_Some[OF ri])
    have ks: "set (ko u) = fmdom' (DeviceServerHalfIDs_val (shri_index_val genInfo u))"
      using ko ug by (simp add: range_order_def)
    have f: "UserRemoved_val ri = UserRemoved_val (shri_index_val genInfo u)"
      using structural_ok_valD(3)[OF s ug] idx by simp
    have n: "map_len (DeviceServerHalfIDs_val ri) =
             map_len (DeviceServerHalfIDs_val (shri_index_val genInfo u))"
      using structural_ok_valD(4)[OF s ug] idx by simp
    have p: "\<forall>key \<in> set (ko u). key \<in> fmdom' (DeviceServerHalfIDs_val ri)"
      using structural_ok_valD(5)[OF s ug] idx ks by simp
    have o: "\<forall>key \<in> set (ko u).
               length (dshri_index_val (DeviceServerHalfIDs_val (shri_index_val genInfo u)) key) = 1"
      using structural_ok_valD(7)[OF s ug] ks by simp
    have r: "\<forall>key \<in> set (ko u). \<forall>key' \<in> set (ko u).
               length (dshri_index_val (DeviceServerHalfIDs_val ri) key) =
               length (dshri_index_val (DeviceServerHalfIDs_val ri) key')"
      using structural_ok_valD(6)[OF s ui] p idx by simp
    have "loop_ok (ko u) (DeviceServerHalfIDs_val (shri_index_val genInfo u)) (- 1)
            (DeviceServerHalfIDs_val ri)"
      unfolding loop_ok_init using p o r by blast
    then show ?thesis using ri f n by (simp add: user_ok_def)
  qed
  then show "map_len info = map_len genInfo \<and>
      (\<forall>u \<in> set us. \<exists>ri. fmlookup info u = Some ri \<and>
                        user_ok (ko u) ri (shri_index_val genInfo u))"
    using structural_ok_valD(1)[OF s] by simp
next
  assume a: "map_len info = map_len genInfo \<and>
      (\<forall>u \<in> set us. \<exists>ri. fmlookup info u = Some ri \<and>
                        user_ok (ko u) ri (shri_index_val genInfo u))"
  have su: "set us = fmdom' genInfo" using us by (simp add: range_order_def)
  have ex: "\<exists>ri. fmlookup info u = Some ri \<and> user_ok (ko u) ri (shri_index_val genInfo u)"
    if "u \<in> fmdom' genInfo" for u using a that su by auto
  have c2: "\<forall>uid \<in> fmdom' genInfo. uid \<in> fmdom' info"
  proof
    fix uid assume "uid \<in> fmdom' genInfo"
    from ex[OF this] obtain ri where "fmlookup info uid = Some ri" by blast
    then show "uid \<in> fmdom' info" by (rule fmdom'I)
  qed
  have doms: "fmdom' info = fmdom' genInfo"
    using same_len_subset_dom[of info genInfo] a c2 by simp
  have usr: "UserRemoved_val (shri_index_val info u) = UserRemoved_val (shri_index_val genInfo u)
        \<and> map_len (DeviceServerHalfIDs_val (shri_index_val info u)) =
          map_len (DeviceServerHalfIDs_val (shri_index_val genInfo u))
        \<and> loop_ok (ko u) (DeviceServerHalfIDs_val (shri_index_val genInfo u)) (- 1)
            (DeviceServerHalfIDs_val (shri_index_val info u))"
    if "u \<in> fmdom' genInfo" for u
  proof -
    from ex[OF that] obtain ri where ri: "fmlookup info u = Some ri"
      "user_ok (ko u) ri (shri_index_val genInfo u)" by blast
    show ?thesis using ri(2) unfolding shri_index_val_Some[OF ri(1)] user_ok_def .
  qed
  have ks: "set (ko u) = fmdom' (DeviceServerHalfIDs_val (shri_index_val genInfo u))"
    if "u \<in> fmdom' genInfo" for u
    using ko that by (simp add: range_order_def)
  have c5: "\<forall>key \<in> fmdom' (DeviceServerHalfIDs_val (shri_index_val genInfo u)).
               key \<in> fmdom' (DeviceServerHalfIDs_val (shri_index_val info u))"
    if "u \<in> fmdom' genInfo" for u
    using usr[OF that] unfolding loop_ok_init ks[OF that] by blast
  have c7: "\<forall>key \<in> fmdom' (DeviceServerHalfIDs_val (shri_index_val genInfo u)).
               length (dshri_index_val (DeviceServerHalfIDs_val (shri_index_val genInfo u)) key) = 1"
    if "u \<in> fmdom' genInfo" for u
    using usr[OF that] unfolding loop_ok_init ks[OF that] by blast
  have dd: "fmdom' (DeviceServerHalfIDs_val (shri_index_val info u)) =
            fmdom' (DeviceServerHalfIDs_val (shri_index_val genInfo u))"
    if "u \<in> fmdom' genInfo" for u
    using same_len_subset_dom[of "DeviceServerHalfIDs_val (shri_index_val info u)"
            "DeviceServerHalfIDs_val (shri_index_val genInfo u)"] usr[OF that] c5[OF that]
    by simp
  have c6: "\<forall>key \<in> fmdom' (DeviceServerHalfIDs_val (shri_index_val info u)).
            \<forall>key' \<in> fmdom' (DeviceServerHalfIDs_val (shri_index_val info u)).
               length (dshri_index_val (DeviceServerHalfIDs_val (shri_index_val info u)) key) =
               length (dshri_index_val (DeviceServerHalfIDs_val (shri_index_val info u)) key')"
    if "u \<in> fmdom' info" for u
  proof -
    have ug: "u \<in> fmdom' genInfo" using that doms by simp
    show ?thesis
      using usr[OF ug] unfolding loop_ok_init dd[OF ug] ks[OF ug] by blast
  qed
  show "structural_ok_val info genInfo"
    unfolding structural_ok_val_def
  proof (intro conjI ballI impI)
    show "map_len info = map_len genInfo" using a by simp
  next
    fix uid assume "uid \<in> fmdom' genInfo"
    then show "uid \<in> fmdom' info" using c2 by simp
  next
    fix uid assume "uid \<in> fmdom' genInfo"
    then show "UserRemoved_val (shri_index_val info uid) = UserRemoved_val (shri_index_val genInfo uid)"
      using usr by simp
  next
    fix uid assume "uid \<in> fmdom' genInfo"
    then show "map_len (DeviceServerHalfIDs_val (shri_index_val info uid)) =
               map_len (DeviceServerHalfIDs_val (shri_index_val genInfo uid))"
      using usr by simp
  next
    fix uid key
    assume "uid \<in> fmdom' genInfo"
      "key \<in> fmdom' (DeviceServerHalfIDs_val (shri_index_val genInfo uid))"
    then show "key \<in> fmdom' (DeviceServerHalfIDs_val (shri_index_val info uid))"
      using c5 by blast
  next
    fix uid key key'
    assume "uid \<in> fmdom' info"
      "key \<in> fmdom' (DeviceServerHalfIDs_val (shri_index_val info uid))"
      "key' \<in> fmdom' (DeviceServerHalfIDs_val (shri_index_val info uid))"
    then show "length (dshri_index_val (DeviceServerHalfIDs_val (shri_index_val info uid)) key) =
               length (dshri_index_val (DeviceServerHalfIDs_val (shri_index_val info uid)) key')"
      using c6 by blast
  next
    fix uid key
    assume "uid \<in> fmdom' genInfo"
      "key \<in> fmdom' (DeviceServerHalfIDs_val (shri_index_val genInfo uid))"
    then show "length (dshri_index_val (DeviceServerHalfIDs_val (shri_index_val genInfo uid)) key) = 1"
      using c7 by blast
  qed
qed

section \<open>The fold on lists: a generation into the history\<close>

lemma orders_distinct:
  assumes "range_order us genInfo"
    and "\<forall>uid \<in> fmdom' genInfo.
           range_order (ko uid) (DeviceServerHalfIDs_val (shri_index_val genInfo uid))"
  shows "distinct us" "\<forall>u \<in> set us. distinct (ko u)" "set us = fmdom' genInfo"
  using assms by (auto simp: range_order_def)

lemma AddGeneration_val_ok_iff:
  assumes "range_order us genInfo"
    and "\<forall>uid \<in> fmdom' genInfo.
           range_order (ko uid) (DeviceServerHalfIDs_val (shri_index_val genInfo uid))"
  shows "fst (AddGeneration_val us ko info genInfo) = None \<longleftrightarrow> structural_ok_val info genInfo"
proof (cases "map_len info = map_len genInfo")
  case True
  then have "fst (AddGeneration_val us ko info genInfo) = None \<longleftrightarrow>
             fst (AddGeneration_loop_val us ko genInfo info) = None"
    by (simp add: AddGeneration_val_def)
  also have "\<dots> \<longleftrightarrow> (\<forall>u \<in> set us. \<exists>ri. fmlookup info u = Some ri \<and>
                        user_ok (ko u) ri (shri_index_val genInfo u))"
    by (rule AddGeneration_loop_val_ok[OF orders_distinct(1,2)[OF assms]])
  also have "\<dots> \<longleftrightarrow> structural_ok_val info genInfo"
    using structural_ok_val_users[OF assms, of info] True by simp
  finally show ?thesis .
next
  case False
  then show ?thesis
    using structural_ok_valD(1)[of info genInfo] by (auto simp: AddGeneration_val_def)
qed



lemma AddGeneration_val_snd:
  "snd (AddGeneration_val us ko info genInfo) = info \<or>
   snd (AddGeneration_val us ko info genInfo) = snd (AddGeneration_loop_val us ko genInfo info)"
  by (simp add: AddGeneration_val_def)

lemma AddGeneration_val_lookup:
  assumes "distinct us"
  shows "fmlookup (snd (AddGeneration_val us ko info genInfo)) u = fmlookup info u \<or>
   (u \<in> set us \<and>
    (\<exists>ri. fmlookup info u = Some ri \<and>
       fmlookup (snd (AddGeneration_val us ko info genInfo)) u =
         Some (snd (addGeneration_val (ko u) ri u (shri_index_val genInfo u)))))"
  using AddGeneration_val_snd[of us ko info genInfo]
        AddGeneration_loop_val_lookup[OF assms, of ko genInfo info u]
  by auto

lemma AddGeneration_val_frame:
  assumes "distinct us"
  shows "fmdom' (snd (AddGeneration_val us ko info genInfo)) = fmdom' info"
    and "UserRemoved_val (shri_index_val (snd (AddGeneration_val us ko info genInfo)) u) =
         UserRemoved_val (shri_index_val info u)"
    and "fmdom' (DeviceServerHalfIDs_val (shri_index_val (snd (AddGeneration_val us ko info genInfo)) u)) =
         fmdom' (DeviceServerHalfIDs_val (shri_index_val info u))"
proof -
  let ?info' = "snd (AddGeneration_val us ko info genInfo)"
  have alt: "fmlookup ?info' u = fmlookup info u \<or>
     (\<exists>ri. fmlookup info u = Some ri \<and>
        fmlookup ?info' u = Some (snd (addGeneration_val (ko u) ri u (shri_index_val genInfo u))))"
    for u
    using AddGeneration_val_lookup[OF assms, of ko info genInfo u] by blast
  show "fmdom' ?info' = fmdom' info"
  proof (rule set_eqI)
    fix u
    show "u \<in> fmdom' ?info' \<longleftrightarrow> u \<in> fmdom' info"
      unfolding fmlookup_dom'_iff using alt[of u] by (metis option.inject)
  qed
  from alt[of u] show "UserRemoved_val (shri_index_val ?info' u) = UserRemoved_val (shri_index_val info u)"
  proof
    assume "fmlookup ?info' u = fmlookup info u"
    then show ?thesis by (simp add: shri_index_val_def)
  next
    assume "\<exists>ri. fmlookup info u = Some ri \<and>
        fmlookup ?info' u = Some (snd (addGeneration_val (ko u) ri u (shri_index_val genInfo u)))"
    then show ?thesis by (auto simp: shri_index_val_Some addGeneration_val_flag)
  qed
  from alt[of u] show "fmdom' (DeviceServerHalfIDs_val (shri_index_val ?info' u)) =
         fmdom' (DeviceServerHalfIDs_val (shri_index_val info u))"
  proof
    assume "fmlookup ?info' u = fmlookup info u"
    then show ?thesis by (simp add: shri_index_val_def)
  next
    assume "\<exists>ri. fmlookup info u = Some ri \<and>
        fmlookup ?info' u = Some (snd (addGeneration_val (ko u) ri u (shri_index_val genInfo u)))"
    then show ?thesis by (auto simp: shri_index_val_Some addGeneration_val_dom)
  qed
qed

lemma singleton_list: "length xs = 1 \<Longrightarrow> \<exists>x. xs = [x]"
  by (cases xs) auto

lemma AddGeneration_val_result_user:
  assumes us: "range_order us genInfo"
    and ko: "\<forall>uid \<in> fmdom' genInfo.
           range_order (ko uid) (DeviceServerHalfIDs_val (shri_index_val genInfo uid))"
    and ok: "structural_ok_val info genInfo"
    and ug: "uid \<in> fmdom' genInfo"
  shows "\<exists>ri. fmlookup info uid = Some ri \<and>
           fst (addGeneration_val (ko uid) ri uid (shri_index_val genInfo uid)) = None \<and>
           fmlookup (snd (AddGeneration_val us ko info genInfo)) uid =
             Some (snd (addGeneration_val (ko uid) ri uid (shri_index_val genInfo uid)))"
proof -
  let ?g = "shri_index_val genInfo uid"
  note d = orders_distinct[OF us ko]
  have none: "fst (AddGeneration_val us ko info genInfo) = None"
    using AddGeneration_val_ok_iff[OF us ko] ok by simp
  have len: "map_len info = map_len genInfo" by (rule structural_ok_valD(1)[OF ok])
  have loop: "AddGeneration_val us ko info genInfo = AddGeneration_loop_val us ko genInfo info"
    using len by (simp add: AddGeneration_val_def)
  have lnone: "fst (AddGeneration_loop_val us ko genInfo info) = None" using none loop by simp
  have uin: "uid \<in> set us" using ug d(3) by simp
  have dk: "distinct (ko uid)" using d(2) uin by simp
  obtain ri where ri: "fmlookup info uid = Some ri" and uok: "user_ok (ko uid) ri ?g"
    using AddGeneration_loop_val_ok[OF d(1,2), of genInfo info] lnone uin by blast
  have idx: "shri_index_val info uid = ri" by (rule shri_index_val_Some[OF ri])
  have fnone: "fst (addGeneration_val (ko uid) ri uid ?g) = None"
    using addGeneration_val_ok[OF dk, of ri uid ?g] uok by simp
  have "fmlookup (snd (AddGeneration_val us ko info genInfo)) uid =
          Some (snd (addGeneration_val (ko uid) ri uid ?g))"
    unfolding loop using AddGeneration_loop_val_result[OF d(1) lnone, of uid] uin idx by simp
  then show ?thesis using ri fnone by blast
qed


lemma AddGeneration_val_appends:
  assumes us: "range_order us genInfo"
    and ko: "\<forall>uid \<in> fmdom' genInfo.
           range_order (ko uid) (DeviceServerHalfIDs_val (shri_index_val genInfo uid))"
    and ok: "structural_ok_val info genInfo"
  shows "fst (AddGeneration_val us ko info genInfo) = None
       \<and> (\<forall>uid \<in> fmdom' genInfo.
            \<forall>key \<in> fmdom' (DeviceServerHalfIDs_val (shri_index_val genInfo uid)).
              \<exists>x. dshri_index_val (DeviceServerHalfIDs_val (shri_index_val genInfo uid)) key = [x] \<and>
                  dshri_index_val (DeviceServerHalfIDs_val
                      (shri_index_val (snd (AddGeneration_val us ko info genInfo)) uid)) key =
                    dshri_index_val (DeviceServerHalfIDs_val (shri_index_val info uid)) key @ [x])
       \<and> fmdom' (snd (AddGeneration_val us ko info genInfo)) = fmdom' info
       \<and> (\<forall>uid \<in> fmdom' info.
            UserRemoved_val (shri_index_val (snd (AddGeneration_val us ko info genInfo)) uid) =
              UserRemoved_val (shri_index_val info uid) \<and>
            fmdom' (DeviceServerHalfIDs_val
                      (shri_index_val (snd (AddGeneration_val us ko info genInfo)) uid)) =
              fmdom' (DeviceServerHalfIDs_val (shri_index_val info uid)))"
proof -
  let ?info' = "snd (AddGeneration_val us ko info genInfo)"
  note d = orders_distinct[OF us ko]
  have none: "fst (AddGeneration_val us ko info genInfo) = None"
    using AddGeneration_val_ok_iff[OF us ko] ok by simp
  have app: "\<exists>x. dshri_index_val (DeviceServerHalfIDs_val (shri_index_val genInfo uid)) key = [x] \<and>
        dshri_index_val (DeviceServerHalfIDs_val (shri_index_val ?info' uid)) key =
          dshri_index_val (DeviceServerHalfIDs_val (shri_index_val info uid)) key @ [x]"
    if ug: "uid \<in> fmdom' genInfo"
      and kg: "key \<in> fmdom' (DeviceServerHalfIDs_val (shri_index_val genInfo uid))" for uid key
  proof -
    let ?g = "shri_index_val genInfo uid"
    have kin: "key \<in> set (ko uid)" using ko ug kg by (simp add: range_order_def)
    have dk: "distinct (ko uid)" using ko ug by (simp add: range_order_def)
    from AddGeneration_val_result_user[OF us ko ok ug] obtain ri where
      ri: "fmlookup info uid = Some ri" and
      fnone: "fst (addGeneration_val (ko uid) ri uid ?g) = None" and
      res: "fmlookup ?info' uid = Some (snd (addGeneration_val (ko uid) ri uid ?g))"
      by blast
    have idx: "shri_index_val info uid = ri" by (rule shri_index_val_Some[OF ri])
    have idx': "shri_index_val ?info' uid = snd (addGeneration_val (ko uid) ri uid ?g)"
      by (rule shri_index_val_Some[OF res])
    have l: "fmlookup (DeviceServerHalfIDs_val (shri_index_val ?info' uid)) key =
          Some (dshri_index_val (DeviceServerHalfIDs_val ri) key @
                dshri_index_val (DeviceServerHalfIDs_val ?g) key)"
      unfolding idx' using addGeneration_val_result[OF dk fnone, of key] kin by simp
    obtain x where x: "dshri_index_val (DeviceServerHalfIDs_val ?g) key = [x]"
      using singleton_list[OF structural_ok_valD(7)[OF ok ug kg]] by blast
    show ?thesis using l x idx by (auto simp: dshri_index_val_def)
  qed
  show ?thesis
    using none app AddGeneration_val_frame[OF d(1), of ko info genInfo] by blast
qed

lemma range_order_empty: "range_order ks fmempty \<Longrightarrow> ks = []"
  by (simp add: range_order_def)

section \<open>The fold on lists: where an error leaves the history\<close>

lemma addGeneration_loop_val_error_state:
  "distinct ks \<Longrightarrow> fst (addGeneration_loop_val ks uid gen c dsh) = Some e \<Longrightarrow>
   \<exists>kf. error_device e = Some kf \<and> error_user e = Some uid \<and> kf \<in> set ks \<and>
     (\<forall>k. fmlookup (snd (addGeneration_loop_val ks uid gen c dsh)) k =
            (if k \<in> set (takeWhile (\<lambda>k. k \<noteq> kf) ks)
             then Some (dshri_index_val dsh k @ dshri_index_val gen k)
             else fmlookup dsh k)) \<and>
     (\<forall>k \<in> set (takeWhile (\<lambda>k. k \<noteq> kf) ks).
        length (dshri_index_val gen k) = 1 \<and> k \<in> fmdom' dsh)"
proof (induction ks arbitrary: c dsh)
  case Nil
  then show ?case by simp
next
  case (Cons key ks)
  let ?l = "int (length (dshri_index_val dsh key))"
  let ?c' = "if c = - 1 then ?l else c"
  let ?dsh' = "fmupd key (dshri_index_val dsh key @ [dshri_index_val gen key ! 0]) dsh"
  have d: "distinct ks" "key \<notin> set ks" using Cons.prems by auto
  show ?case
  proof (cases "(c \<noteq> - 1 \<and> ?l \<noteq> c) \<or> length (dshri_index_val gen key) \<noteq> 1
                \<or> fmlookup dsh key = None")
    case True
    then have s: "snd (addGeneration_loop_val (key # ks) uid gen c dsh) = dsh"
      by (auto simp: Let_def)
    have "error_device e = Some key \<and> error_user e = Some uid"
      using True Cons.prems(2) by (auto simp: Let_def split: if_splits)
    then show ?thesis unfolding s by (intro exI[of _ key]) simp
  next
    case False
    then have one: "length (dshri_index_val gen key) = 1" and pres: "key \<in> fmdom' dsh"
      by (auto simp: fmlookup_dom'_iff)
    have step: "addGeneration_loop_val (key # ks) uid gen c dsh =
                addGeneration_loop_val ks uid gen ?c' ?dsh'"
      using False by (auto simp: Let_def)
    have upd: "?dsh' = fmupd key (dshri_index_val dsh key @ dshri_index_val gen key) dsh"
      using singleton_nth0[OF one] by simp
    have "fst (addGeneration_loop_val ks uid gen ?c' ?dsh') = Some e"
      using Cons.prems(2) unfolding step .
    from Cons.IH[OF d(1) this] obtain kf where
      kf: "error_device e = Some kf" "error_user e = Some uid" "kf \<in> set ks" and
      look: "\<And>k. fmlookup (snd (addGeneration_loop_val ks uid gen ?c' ?dsh')) k =
            (if k \<in> set (takeWhile (\<lambda>k. k \<noteq> kf) ks)
             then Some (dshri_index_val ?dsh' k @ dshri_index_val gen k)
             else fmlookup ?dsh' k)" and
      vis: "\<And>k. k \<in> set (takeWhile (\<lambda>k. k \<noteq> kf) ks) \<Longrightarrow>
        length (dshri_index_val gen k) = 1 \<and> k \<in> fmdom' ?dsh'"
      by blast
    have ne: "key \<noteq> kf" using kf(3) d(2) by auto
    have tw: "takeWhile (\<lambda>k. k \<noteq> kf) (key # ks) = key # takeWhile (\<lambda>k. k \<noteq> kf) ks"
      using ne by simp
    have notin: "key \<notin> set (takeWhile (\<lambda>k. k \<noteq> kf) ks)"
      using d(2) set_takeWhileD by fastforce
    have l: "fmlookup (snd (addGeneration_loop_val ks uid gen ?c' ?dsh')) k =
            (if k \<in> set (key # takeWhile (\<lambda>k. k \<noteq> kf) ks)
             then Some (dshri_index_val dsh k @ dshri_index_val gen k)
             else fmlookup dsh k)" for k
    proof (cases "k = key")
      case True
      then show ?thesis using look[of key] notin upd by simp
    next
      case False
      then show ?thesis using look[of k] by (simp add: dshri_index_val_upd_other)
    qed
    have v: "length (dshri_index_val gen k) = 1 \<and> k \<in> fmdom' dsh"
      if "k \<in> set (key # takeWhile (\<lambda>k. k \<noteq> kf) ks)" for k
    proof (cases "k = key")
      case True
      then show ?thesis using one pres by simp
    next
      case False
      then have "k \<in> set (takeWhile (\<lambda>k. k \<noteq> kf) ks)" using that by simp
      from vis[OF this] show ?thesis using False by auto
    qed
    show ?thesis unfolding step tw
      using kf l v ne by (intro exI[of _ kf]) simp
  qed
qed

lemma addGeneration_val_error_user:
  assumes "distinct ks" "fst (addGeneration_val ks ri uid genInfo) = Some e"
  shows "error_user e = Some uid"
  using addGeneration_val_error[OF assms]
        addGeneration_loop_val_error_state[OF assms(1), of uid "DeviceServerHalfIDs_val genInfo"
          "- 1" "DeviceServerHalfIDs_val ri" e]
  by auto

lemma addGeneration_val_error_state:
  assumes d: "distinct ks" and e: "fst (addGeneration_val ks ri uid genInfo) = Some e"
  shows "fmlookup (DeviceServerHalfIDs_val (snd (addGeneration_val ks ri uid genInfo))) k =
           (if k \<in> set (visited_devices e ks)
            then Some (dshri_index_val (DeviceServerHalfIDs_val ri) k @
                       dshri_index_val (DeviceServerHalfIDs_val genInfo) k)
            else fmlookup (DeviceServerHalfIDs_val ri) k)"
    and "k \<in> set (visited_devices e ks) \<Longrightarrow>
           length (dshri_index_val (DeviceServerHalfIDs_val genInfo) k) = 1 \<and>
           k \<in> fmdom' (DeviceServerHalfIDs_val ri)"
    and "error_device e = Some kf \<Longrightarrow> kf \<in> set ks"
proof -
  let ?loop = "addGeneration_loop_val ks uid (DeviceServerHalfIDs_val genInfo) (- 1)
                 (DeviceServerHalfIDs_val ri)"
  from addGeneration_val_error[OF d e] consider
      (flag) "e = UserRemovedMismatch (UserRemoved_val ri) (UserRemoved_val genInfo) uid"
             "UserRemoved_val ri \<noteq> UserRemoved_val genInfo"
    | (count) "UserRemoved_val ri = UserRemoved_val genInfo"
        "e = DeviceCountMismatch (map_len (DeviceServerHalfIDs_val ri))
                 (map_len (DeviceServerHalfIDs_val genInfo)) uid"
        "map_len (DeviceServerHalfIDs_val ri) \<noteq> map_len (DeviceServerHalfIDs_val genInfo)"
    | (loop) "UserRemoved_val ri = UserRemoved_val genInfo"
        "map_len (DeviceServerHalfIDs_val ri) = map_len (DeviceServerHalfIDs_val genInfo)"
        "fst ?loop = Some e"
    using e by (auto simp: addGeneration_val_def split: prod.splits if_splits)
  then have "fmlookup (DeviceServerHalfIDs_val (snd (addGeneration_val ks ri uid genInfo))) k =
           (if k \<in> set (visited_devices e ks)
            then Some (dshri_index_val (DeviceServerHalfIDs_val ri) k @
                       dshri_index_val (DeviceServerHalfIDs_val genInfo) k)
            else fmlookup (DeviceServerHalfIDs_val ri) k)
     \<and> (k \<in> set (visited_devices e ks) \<longrightarrow>
           length (dshri_index_val (DeviceServerHalfIDs_val genInfo) k) = 1 \<and>
           k \<in> fmdom' (DeviceServerHalfIDs_val ri))
     \<and> (error_device e = Some kf \<longrightarrow> kf \<in> set ks)"
  proof cases
    case flag
    then show ?thesis by (simp add: addGeneration_val_def visited_devices_def)
  next
    case count
    then show ?thesis by (simp add: addGeneration_val_def visited_devices_def)
  next
    case loop
    have s: "snd (addGeneration_val ks ri uid genInfo) =
             ri\<lparr>DeviceServerHalfIDs_val := snd ?loop\<rparr>"
      using loop by (simp add: addGeneration_val_def split: prod.splits)
    from addGeneration_loop_val_error_state[OF d loop(3)] obtain kf' where
      kf: "error_device e = Some kf'" "kf' \<in> set ks" and
      look: "\<And>k. fmlookup (snd ?loop) k =
            (if k \<in> set (takeWhile (\<lambda>k. k \<noteq> kf') ks)
             then Some (dshri_index_val (DeviceServerHalfIDs_val ri) k @
                        dshri_index_val (DeviceServerHalfIDs_val genInfo) k)
             else fmlookup (DeviceServerHalfIDs_val ri) k)" and
      vis: "\<And>k. k \<in> set (takeWhile (\<lambda>k. k \<noteq> kf') ks) \<Longrightarrow>
        length (dshri_index_val (DeviceServerHalfIDs_val genInfo) k) = 1 \<and>
        k \<in> fmdom' (DeviceServerHalfIDs_val ri)"
      by blast
    have vd: "visited_devices e ks = takeWhile (\<lambda>k. k \<noteq> kf') ks"
      by (simp add: visited_devices_def kf(1))
    show ?thesis unfolding s vd using look[of k] vis[of k] kf by auto
  qed
  then show "fmlookup (DeviceServerHalfIDs_val (snd (addGeneration_val ks ri uid genInfo))) k =
           (if k \<in> set (visited_devices e ks)
            then Some (dshri_index_val (DeviceServerHalfIDs_val ri) k @
                       dshri_index_val (DeviceServerHalfIDs_val genInfo) k)
            else fmlookup (DeviceServerHalfIDs_val ri) k)"
    and "k \<in> set (visited_devices e ks) \<Longrightarrow>
           length (dshri_index_val (DeviceServerHalfIDs_val genInfo) k) = 1 \<and>
           k \<in> fmdom' (DeviceServerHalfIDs_val ri)"
    and "error_device e = Some kf \<Longrightarrow> kf \<in> set ks"
    by simp_all
qed

lemma shri_index_val_upd:
  "shri_index_val (fmupd uid r info) u = (if u = uid then r else shri_index_val info u)"
  by (simp add: shri_index_val_def)

lemma takeWhile_notin:
  "x \<notin> set xs \<Longrightarrow> x \<notin> set (takeWhile P xs)"
  using set_takeWhileD by fastforce

lemma AddGeneration_loop_val_error_state:
  "distinct us \<Longrightarrow> \<forall>u \<in> set us. distinct (ko u) \<Longrightarrow>
   fst (AddGeneration_loop_val us ko genInfo info) = Some e \<Longrightarrow>
   \<exists>uf. error_user e = Some uf \<and> uf \<in> set us \<and>
     (\<forall>u. shri_index_val (snd (AddGeneration_loop_val us ko genInfo info)) u =
        (if u \<in> set (takeWhile (\<lambda>u. u \<noteq> uf) us) \<or> (u = uf \<and> uf \<in> fmdom' info)
         then snd (addGeneration_val (ko u) (shri_index_val info u) u (shri_index_val genInfo u))
         else shri_index_val info u)) \<and>
     (\<forall>u \<in> set (takeWhile (\<lambda>u. u \<noteq> uf) us).
        fst (addGeneration_val (ko u) (shri_index_val info u) u (shri_index_val genInfo u)) = None) \<and>
     (if uf \<in> fmdom' info
      then fst (addGeneration_val (ko uf) (shri_index_val info uf) uf (shri_index_val genInfo uf)) = Some e
      else e = NoGenerationInfoForUser uf)"
proof (induction us arbitrary: info)
  case Nil
  then show ?case by simp
next
  case (Cons uid us)
  have d: "distinct us" "uid \<notin> set us" "\<forall>u \<in> set us. distinct (ko u)" "distinct (ko uid)"
    using Cons.prems by auto
  show ?case
  proof (cases "fmlookup info uid")
    case None
    then have r: "AddGeneration_loop_val (uid # us) ko genInfo info =
                  (Some (NoGenerationInfoForUser uid), info)"
      by (rule AddGeneration_loop_val_missing)
    have e: "e = NoGenerationInfoForUser uid" using Cons.prems(3) unfolding r by simp
    have "uid \<notin> fmdom' info" using None by (simp add: fmdom'_notI)
    then show ?thesis unfolding r e by (intro exI[of _ uid]) simp
  next
    case (Some ri)
    have idx: "shri_index_val info uid = ri" by (rule shri_index_val_Some[OF Some])
    have uin: "uid \<in> fmdom' info" using Some by (rule fmdom'I)
    let ?r = "addGeneration_val (ko uid) ri uid (shri_index_val genInfo uid)"
    let ?info' = "fmupd uid (snd ?r) info"
    show ?thesis
    proof (cases "fst ?r")
      case None
      note step = AddGeneration_loop_val_step[of info uid ri ko genInfo us, OF Some None]
      have "fst (AddGeneration_loop_val us ko genInfo ?info') = Some e"
        using Cons.prems(3) unfolding step .
      from Cons.IH[OF d(1) d(3) this] obtain uf where
        uf: "error_user e = Some uf" "uf \<in> set us" and
        look: "\<And>u. shri_index_val (snd (AddGeneration_loop_val us ko genInfo ?info')) u =
          (if u \<in> set (takeWhile (\<lambda>u. u \<noteq> uf) us) \<or> (u = uf \<and> uf \<in> fmdom' ?info')
           then snd (addGeneration_val (ko u) (shri_index_val ?info' u) u (shri_index_val genInfo u))
           else shri_index_val ?info' u)" and
        vis: "\<And>u. u \<in> set (takeWhile (\<lambda>u. u \<noteq> uf) us) \<Longrightarrow>
          fst (addGeneration_val (ko u) (shri_index_val ?info' u) u (shri_index_val genInfo u)) = None" and
        fail: "if uf \<in> fmdom' ?info'
          then fst (addGeneration_val (ko uf) (shri_index_val ?info' uf) uf (shri_index_val genInfo uf)) = Some e
          else e = NoGenerationInfoForUser uf"
        by blast
      have ne: "uid \<noteq> uf" using uf(2) d(2) by auto
      have notin: "uid \<notin> set (takeWhile (\<lambda>u. u \<noteq> uf) us)" by (rule takeWhile_notin[OF d(2)])
      have tw: "takeWhile (\<lambda>u. u \<noteq> uf) (uid # us) = uid # takeWhile (\<lambda>u. u \<noteq> uf) us"
        using ne by simp
      have dom: "uf \<in> fmdom' ?info' \<longleftrightarrow> uf \<in> fmdom' info" using ne by auto
      have l: "shri_index_val (snd (AddGeneration_loop_val us ko genInfo ?info')) u =
          (if u \<in> set (uid # takeWhile (\<lambda>u. u \<noteq> uf) us) \<or> (u = uf \<and> uf \<in> fmdom' info)
           then snd (addGeneration_val (ko u) (shri_index_val info u) u (shri_index_val genInfo u))
           else shri_index_val info u)" for u
      proof (cases "u = uid")
        case True
        then show ?thesis using look[of uid] notin ne idx by (simp add: shri_index_val_upd)
      next
        case False
        then show ?thesis using look[of u] dom by (simp add: shri_index_val_upd)
      qed
      have v: "fst (addGeneration_val (ko u) (shri_index_val info u) u (shri_index_val genInfo u)) = None"
        if "u \<in> set (uid # takeWhile (\<lambda>u. u \<noteq> uf) us)" for u
      proof (cases "u = uid")
        case True
        then show ?thesis using None idx by simp
      next
        case False
        then have "u \<in> set (takeWhile (\<lambda>u. u \<noteq> uf) us)" using that by simp
        from vis[OF this] show ?thesis using False by (simp add: shri_index_val_upd)
      qed
      have f: "if uf \<in> fmdom' info
          then fst (addGeneration_val (ko uf) (shri_index_val info uf) uf (shri_index_val genInfo uf)) = Some e
          else e = NoGenerationInfoForUser uf"
      proof -
        have sidx: "shri_index_val ?info' uf = shri_index_val info uf"
          using ne by (simp add: shri_index_val_upd)
        show ?thesis using fail unfolding dom sidx .
      qed
      have "error_user e = Some uf \<and> uf \<in> set (uid # us) \<and>
        (\<forall>u. shri_index_val (snd (AddGeneration_loop_val us ko genInfo ?info')) u =
          (if u \<in> set (uid # takeWhile (\<lambda>u. u \<noteq> uf) us) \<or> (u = uf \<and> uf \<in> fmdom' info)
           then snd (addGeneration_val (ko u) (shri_index_val info u) u (shri_index_val genInfo u))
           else shri_index_val info u)) \<and>
        (\<forall>u \<in> set (uid # takeWhile (\<lambda>u. u \<noteq> uf) us).
          fst (addGeneration_val (ko u) (shri_index_val info u) u (shri_index_val genInfo u)) = None) \<and>
        (if uf \<in> fmdom' info
          then fst (addGeneration_val (ko uf) (shri_index_val info uf) uf (shri_index_val genInfo uf)) = Some e
          else e = NoGenerationInfoForUser uf)"
        using uf l v f by (intro conjI allI ballI) simp_all
      then show ?thesis unfolding step tw[symmetric] by (rule exI[of _ uf])
    next
      case (Some e')
      note stop = AddGeneration_loop_val_stop[of info uid ri ko genInfo e' us,
          OF \<open>fmlookup info uid = Some ri\<close> Some]
      have ee: "e' = e" using Cons.prems(3) unfolding stop by simp
      have eu: "error_user e = Some uid"
        using addGeneration_val_error_user[OF d(4) Some] ee by simp
      show ?thesis unfolding stop
        using eu uin Some idx ee
        by (intro exI[of _ uid]) (simp add: shri_index_val_upd)
    qed
  qed
qed

lemma AddGeneration_val_error_state:
  assumes us: "range_order us genInfo"
    and ko: "\<forall>uid \<in> fmdom' genInfo.
           range_order (ko uid) (DeviceServerHalfIDs_val (shri_index_val genInfo uid))"
    and e: "fst (AddGeneration_val us ko info genInfo) = Some e"
  shows "dshri_index_val (DeviceServerHalfIDs_val
            (shri_index_val (snd (AddGeneration_val us ko info genInfo)) uid)) key =
         (if appended_before e us ko uid key
          then dshri_index_val (DeviceServerHalfIDs_val (shri_index_val info uid)) key @
               dshri_index_val (DeviceServerHalfIDs_val (shri_index_val genInfo uid)) key
          else dshri_index_val (DeviceServerHalfIDs_val (shri_index_val info uid)) key)"
    and "appended_before e us ko uid key \<Longrightarrow>
           length (dshri_index_val (DeviceServerHalfIDs_val (shri_index_val genInfo uid)) key) = 1 \<and>
           key \<in> fmdom' (DeviceServerHalfIDs_val (shri_index_val info uid))"
    and "error_user e = Some uf \<Longrightarrow> uf \<in> set us"
    and "error_user e = Some uf \<Longrightarrow> error_device e = Some kf \<Longrightarrow> kf \<in> set (ko uf)"
proof -
  let ?info' = "snd (AddGeneration_val us ko info genInfo)"
  let ?old = "dshri_index_val (DeviceServerHalfIDs_val (shri_index_val info uid)) key"
  let ?gen = "dshri_index_val (DeviceServerHalfIDs_val (shri_index_val genInfo uid)) key"
  let ?new = "dshri_index_val (DeviceServerHalfIDs_val (shri_index_val ?info' uid)) key"
  note d = orders_distinct[OF us ko]
  have all: "?new = (if appended_before e us ko uid key then ?old @ ?gen else ?old)
     \<and> (appended_before e us ko uid key \<longrightarrow>
           length ?gen = 1 \<and> key \<in> fmdom' (DeviceServerHalfIDs_val (shri_index_val info uid)))
     \<and> (error_user e = Some uf \<longrightarrow> uf \<in> set us)
     \<and> (error_user e = Some uf \<longrightarrow> error_device e = Some kf \<longrightarrow> kf \<in> set (ko uf))"
  proof (cases "map_len info = map_len genInfo")
    case False
    then have "e = UserCountMismatch (map_len info) (map_len genInfo)" "?info' = info"
      using e by (simp_all add: AddGeneration_val_def)
    then show ?thesis by (simp add: appended_before_def visited_users_def)
  next
    case True
    then have r: "AddGeneration_val us ko info genInfo = AddGeneration_loop_val us ko genInfo info"
      by (simp add: AddGeneration_val_def)
    let ?res = "\<lambda>u. addGeneration_val (ko u) (shri_index_val info u) u (shri_index_val genInfo u)"
    from AddGeneration_loop_val_error_state[OF d(1) d(2) e[unfolded r]] obtain uf' where
      uf: "error_user e = Some uf'" "uf' \<in> set us" and
      look: "\<And>u. shri_index_val ?info' u =
        (if u \<in> set (takeWhile (\<lambda>u. u \<noteq> uf') us) \<or> (u = uf' \<and> uf' \<in> fmdom' info)
         then snd (?res u) else shri_index_val info u)" and
      vis: "\<And>u. u \<in> set (takeWhile (\<lambda>u. u \<noteq> uf') us) \<Longrightarrow> fst (?res u) = None" and
      fail: "if uf' \<in> fmdom' info then fst (?res uf') = Some e
             else e = NoGenerationInfoForUser uf'"
      unfolding r by blast
    have vu: "visited_users e us = takeWhile (\<lambda>u. u \<noteq> uf') us"
      by (simp add: visited_users_def uf(1))
    have ab: "appended_before e us ko uid key \<longleftrightarrow>
        (uid \<in> set (takeWhile (\<lambda>u. u \<noteq> uf') us) \<and> key \<in> set (ko uid)) \<or>
        (uid = uf' \<and> key \<in> set (visited_devices e (ko uid)))"
      using uf by (auto simp: appended_before_def vu)
    have dk: "distinct (ko uf')" using d(2) uf(2) by simp
    have dev: "error_device e = Some kf \<longrightarrow> kf \<in> set (ko uf')"
    proof (cases "uf' \<in> fmdom' info")
      case True
      then have "fst (?res uf') = Some e" using fail by simp
      from addGeneration_val_error_state(3)[OF dk this] show ?thesis by blast
    next
      case False
      then have "e = NoGenerationInfoForUser uf'" using fail by simp
      then show ?thesis by simp
    qed
    consider (before) "uid \<in> set (takeWhile (\<lambda>u. u \<noteq> uf') us)"
      | (failing) "uid = uf'" "uf' \<in> fmdom' info"
      | (missing) "uid = uf'" "uf' \<notin> fmdom' info"
      | (after) "uid \<notin> set (takeWhile (\<lambda>u. u \<noteq> uf') us)" "uid \<noteq> uf'"
      by blast
    then have "?new = (if appended_before e us ko uid key then ?old @ ?gen else ?old)
     \<and> (appended_before e us ko uid key \<longrightarrow>
           length ?gen = 1 \<and> key \<in> fmdom' (DeviceServerHalfIDs_val (shri_index_val info uid)))"
    proof cases
      case before
      then have uin: "uid \<in> set us" and ne: "uid \<noteq> uf'"
        using set_takeWhileD[OF before] by auto
      have dku: "distinct (ko uid)" using d(2) uin by simp
      have none: "fst (?res uid) = None" by (rule vis[OF before])
      have idx: "shri_index_val ?info' uid = snd (?res uid)" using look[of uid] before by simp
      have ab': "appended_before e us ko uid key \<longleftrightarrow> key \<in> set (ko uid)"
        unfolding ab using before ne by simp
      have ok: "user_ok (ko uid) (shri_index_val info uid) (shri_index_val genInfo uid)"
        using addGeneration_val_ok[OF dku, of "shri_index_val info uid" uid
            "shri_index_val genInfo uid"] none by simp
      have lo: "\<forall>k \<in> set (ko uid).
          length (dshri_index_val (DeviceServerHalfIDs_val (shri_index_val genInfo uid)) k) = 1 \<and>
          k \<in> fmdom' (DeviceServerHalfIDs_val (shri_index_val info uid))"
        using ok unfolding user_ok_def loop_ok_init by (elim conjE)
      have res: "fmlookup (DeviceServerHalfIDs_val (snd (?res uid))) key =
          (if key \<in> set (ko uid) then Some (?old @ ?gen)
           else fmlookup (DeviceServerHalfIDs_val (shri_index_val info uid)) key)"
        by (rule addGeneration_val_result[OF dku none])
      show ?thesis
      proof (cases "key \<in> set (ko uid)")
        case True
        then have "?new = ?old @ ?gen"
          unfolding idx using res by (simp add: dshri_index_val_def)
        then show ?thesis unfolding ab' using True lo by simp
      next
        case False
        then have "?new = ?old"
          unfolding idx using res by (simp add: dshri_index_val_def)
        then show ?thesis unfolding ab' using False by simp
      qed
    next
      case failing
      have notin: "uid \<notin> set (takeWhile (\<lambda>u. u \<noteq> uf') us)"
        using failing(1) set_takeWhileD by fastforce
      have err: "fst (?res uid) = Some e" using fail failing by simp
      have dku: "distinct (ko uid)" using dk failing(1) by simp
      have idx: "shri_index_val ?info' uid = snd (?res uid)" using look[of uid] failing by simp
      have ab': "appended_before e us ko uid key \<longleftrightarrow> key \<in> set (visited_devices e (ko uid))"
        unfolding ab using notin failing(1) by simp
      note st = addGeneration_val_error_state(1,2)[OF dku err, of key]
      show ?thesis
      proof (cases "key \<in> set (visited_devices e (ko uid))")
        case True
        then have "?new = ?old @ ?gen"
          unfolding idx using st(1) by (simp add: dshri_index_val_def)
        then show ?thesis unfolding ab' using True st(2) by simp
      next
        case False
        then have "?new = ?old"
          unfolding idx using st(1) by (simp add: dshri_index_val_def)
        then show ?thesis unfolding ab' using False by simp
      qed
    next
      case missing
      have notin: "uid \<notin> set (takeWhile (\<lambda>u. u \<noteq> uf') us)"
        using missing(1) set_takeWhileD by fastforce
      have "e = NoGenerationInfoForUser uf'" using fail missing by simp
      then have nab: "\<not> appended_before e us ko uid key"
        unfolding ab using notin by (simp add: visited_devices_def)
      have idx: "shri_index_val ?info' uid = shri_index_val info uid"
        using look[of uid] notin missing by simp
      show ?thesis unfolding idx using nab by simp
    next
      case after
      have nab: "\<not> appended_before e us ko uid key" unfolding ab using after by simp
      have idx: "shri_index_val ?info' uid = shri_index_val info uid"
        using look[of uid] after by simp
      show ?thesis unfolding idx using nab by simp
    qed
    then show ?thesis using uf dev by auto
  qed
  show "?new = (if appended_before e us ko uid key then ?old @ ?gen else ?old)"
    using all by (elim conjE)
  show "appended_before e us ko uid key \<Longrightarrow>
           length ?gen = 1 \<and> key \<in> fmdom' (DeviceServerHalfIDs_val (shri_index_val info uid))"
    using all by blast
  show "error_user e = Some uf \<Longrightarrow> uf \<in> set us" using all by blast
  show "error_user e = Some uf \<Longrightarrow> error_device e = Some kf \<Longrightarrow> kf \<in> set (ko uf)"
    using all by blast
qed

section \<open>Slices and appends\<close>

lemma length_elems: "wf_slice st s \<Longrightarrow> length (elems st s) = len s"
  by (auto simp: elems_def wf_slice_def)

lemma elems_nil [simp]: "elems st nil_slice = []"
  by (simp add: elems_def nil_slice_def)

lemma elems_cong:
  assumes "\<And>i. i < len s \<Longrightarrow> mem st' ! (ptr s + i) = mem st ! (ptr s + i)"
    and "ptr s + len s \<le> length (mem st)" "ptr s + len s \<le> length (mem st')"
  shows "elems st' s = elems st s"
  unfolding elems_def using assms by (intro nth_equalityI) auto

lemma append_slice_mem_length:
  "length (mem st) \<le> length (mem (fst (append_slice grow st s x)))"
  by (cases "len s < cap s") (simp_all add: append_slice_def Let_def del: length_replicate)

lemma append_slice_hmaps: "hmaps (fst (append_slice grow st s x)) = hmaps st"
  by (simp add: append_slice_def Let_def)

lemma append_slice_wf:
  assumes "wf_slice st s"
  shows "wf_slice (fst (append_slice grow st s x)) (snd (append_slice grow st s x))"
  using assms by (auto simp: append_slice_def Let_def wf_slice_def elems_def)

lemma append_slice_elems:
  assumes "wf_slice st s"
  shows "elems (fst (append_slice grow st s x)) (snd (append_slice grow st s x)) = elems st s @ [x]"
proof (cases "len s < cap s")
  case True
  let ?m = "(mem st)[ptr s + len s := x]"
  have b: "ptr s + len s < length (mem st)" using True assms by (simp add: wf_slice_def)
  have n: "len s < length (drop (ptr s) ?m)" using b by simp
  have 1: "take (len s) (drop (ptr s) ?m) = take (len s) (drop (ptr s) (mem st))"
    by (intro nth_equalityI) (use b in auto)
  have 2: "drop (ptr s) ?m ! len s = x" using b by simp
  have "take (Suc (len s)) (drop (ptr s) ?m) = take (len s) (drop (ptr s) (mem st)) @ [x]"
    unfolding take_Suc_conv_app_nth[OF n] 1 2 ..
  then show ?thesis using True by (simp add: append_slice_def elems_def)
next
  case False
  have l: "length (elems st s) = len s" by (rule length_elems[OF assms])
  show ?thesis
    using False l by (simp add: append_slice_def Let_def elems_def[of _ "\<lparr>ptr = _, len = _, cap = _\<rparr>"])
qed

lemma append_slice_region:
  assumes "wf_slice st s"
  shows "region (snd (append_slice grow st s x)) \<subseteq>
         region s \<union> {length (mem st) ..< length (mem (fst (append_slice grow st s x)))}"
  using assms by (auto simp: append_slice_def Let_def region_def wf_slice_def elems_def)

lemma append_slice_frame:
  assumes "ptr t + len t \<le> length (mem st)" "readable t \<inter> region s = {}"
  shows "elems (fst (append_slice grow st s x)) t = elems st t"
proof (cases "len s < cap s")
  case True
  have "ptr s + len s \<notin> readable t"
    using True assms(2) by (auto simp: region_def)
  then have "\<And>i. i < len t \<Longrightarrow> ptr s + len s \<noteq> ptr t + i"
    by (auto simp: readable_def)
  then show ?thesis using True assms(1)
    by (intro elems_cong) (auto simp: append_slice_def)
next
  case False
  then show ?thesis using assms(1)
    by (intro elems_cong) (auto simp: append_slice_def Let_def nth_append)
qed

lemma append_slice_wf_frame:
  assumes "wf_slice st t"
  shows "wf_slice (fst (append_slice grow st s x)) t"
  using assms append_slice_mem_length[of st grow s x] by (auto simp: wf_slice_def)

lemma deref_map_assign:
  assumes "a < length (hmaps st)"
  shows "deref (map_assign st (MapRef a) key v) r =
           (if r = MapRef a then fmupd key v (deref st r) else deref st r)"
  using assms by (cases r) (auto simp: deref_def map_assign_def)

lemma mem_map_assign [simp]: "mem (map_assign st r key v) = mem st"
  by (cases r) (simp_all add: map_assign_def)

lemma length_hmaps_map_assign [simp]: "length (hmaps (map_assign st r key v)) = length (hmaps st)"
  by (cases r) (simp_all add: map_assign_def)

lemma elems_mem_cong: "mem st' = mem st \<Longrightarrow> elems st' s = elems st s"
  by (simp add: elems_def)

lemma wf_slice_mem_cong: "mem st' = mem st \<Longrightarrow> wf_slice st' s = wf_slice st s"
  by (simp add: wf_slice_def)

lemma deref_append_slice [simp]: "deref (fst (append_slice grow st s x)) r = deref st r"
  by (cases r) (simp_all add: deref_def append_slice_hmaps)

section \<open>One append in a store\<close>

lemma append_at_props:
  fixes st :: "('key, 'h::zero) store"
  assumes a: "a < length (hmaps st)"
    and k: "key \<in> fmdom' (deref st (MapRef a))"
    and w: "wf_slice st (dshri_index st (MapRef a) key)"
  shows "fmdom' (deref (append_at grow st a key x) r) = fmdom' (deref st r)"
    and "r \<noteq> MapRef a \<or> k' \<noteq> key \<Longrightarrow>
           dshri_index (append_at grow st a key x) r k' = dshri_index st r k'"
    and "wf_slice (append_at grow st a key x) (dshri_index (append_at grow st a key x) (MapRef a) key)"
    and "elems (append_at grow st a key x) (dshri_index (append_at grow st a key x) (MapRef a) key) = elems st (dshri_index st (MapRef a) key) @ [x]"
    and "region (dshri_index (append_at grow st a key x) (MapRef a) key) \<subseteq>
           region (dshri_index st (MapRef a) key) \<union> {length (mem st) ..< length (mem (append_at grow st a key x))}"
    and "wf_slice st t \<Longrightarrow> wf_slice (append_at grow st a key x) t"
    and "wf_slice st t \<Longrightarrow> readable t \<inter> region (dshri_index st (MapRef a) key) = {} \<Longrightarrow> elems (append_at grow st a key x) t = elems st t"
    and "wf_ref (append_at grow st a key x) r = wf_ref st r"
    and "length (mem st) \<le> length (mem (append_at grow st a key x))"
proof -
  define s where "s = dshri_index st (MapRef a) key"
  define st' where "st' = append_at grow st a key x"
  note w = w[folded s_def]
  let ?ap = "append_slice grow st s x"
  have st': "st' = map_assign (fst ?ap) (MapRef a) key (snd ?ap)"
    by (simp add: st'_def append_at_def s_def Let_def)
  note [simp] = st'_def[symmetric] s_def[symmetric]
  have a': "a < length (hmaps (fst ?ap))" using a by (simp add: append_slice_hmaps)
  have d: "deref st' r = (if r = MapRef a then fmupd key (snd ?ap) (deref st r) else deref st r)"
    for r
    unfolding st' deref_map_assign[OF a'] by simp
  show "fmdom' (deref st' r) = fmdom' (deref st r)"
    using k by (auto simp: d)
  have new: "dshri_index st' (MapRef a) key = snd ?ap"
    by (simp add: dshri_index_def d)
  show "r \<noteq> MapRef a \<or> k' \<noteq> key \<Longrightarrow> dshri_index st' r k' = dshri_index st r k'"
    by (auto simp: dshri_index_def d)
  have m: "mem st' = mem (fst ?ap)" by (simp add: st')
  show "wf_slice st' (dshri_index st' (MapRef a) key)"
    unfolding new wf_slice_mem_cong[OF m] using w by (simp add: append_slice_wf)
  show "elems st' (dshri_index st' (MapRef a) key) = elems st s @ [x]"
    unfolding new elems_mem_cong[OF m] using w by (simp add: append_slice_elems)
  show "region (dshri_index st' (MapRef a) key) \<subseteq>
           region s \<union> {length (mem st) ..< length (mem st')}"
    unfolding new m using w append_slice_region[of st s grow x] by simp
  show "wf_slice st t \<Longrightarrow> wf_slice st' t"
    unfolding wf_slice_mem_cong[OF m] by (rule append_slice_wf_frame)
  show "wf_slice st t \<Longrightarrow> readable t \<inter> region s = {} \<Longrightarrow> elems st' t = elems st t"
    unfolding elems_mem_cong[OF m]
    by (rule append_slice_frame) (auto simp: wf_slice_def)
  show "wf_ref st' r = wf_ref st r"
    by (cases r) (simp_all add: wf_ref_def st' append_slice_hmaps)
  show "length (mem st) \<le> length (mem st')"
    unfolding m by (rule append_slice_mem_length)
qed

lemma dshri_index_Some:
  "fmlookup (deref st r) k = Some t \<Longrightarrow> dshri_index st r k = t"
  by (simp add: dshri_index_def)

lemma val_dsh_lookup:
  "fmlookup (val_dsh st r) k = map_option (elems st) (fmlookup (deref st r) k)"
  by (simp add: val_dsh_def)

lemma val_dsh_dom [simp]: "fmdom' (val_dsh st r) = fmdom' (deref st r)"
  by (simp add: val_dsh_def)

lemma val_dsh_frame:
  fixes st :: "('key, 'h::zero) store"
  assumes a: "a < length (hmaps st)"
    and k: "key \<in> fmdom' (deref st (MapRef a))"
    and w: "wf_slice st (dshri_index st (MapRef a) key)"
    and r: "r \<noteq> MapRef a"
    and apart: "\<And>k'. k' \<in> fmdom' (deref st r) \<Longrightarrow>
        wf_slice st (dshri_index st r k') \<and>
        readable (dshri_index st r k') \<inter> region (dshri_index st (MapRef a) key) = {}"
  shows "val_dsh (append_at grow st a key x) r = val_dsh st r"
proof (rule fmap_ext)
  fix k'
  let ?st' = "append_at grow st a key x"
  note p = append_at_props[OF a k w, where grow = grow and x = x]
  show "fmlookup (val_dsh ?st' r) k' = fmlookup (val_dsh st r) k'"
  proof (cases "fmlookup (deref st r) k'")
    case None
    then have "k' \<notin> fmdom' (deref ?st' r)" unfolding p(1) by (simp add: fmdom'_notI)
    then show ?thesis using None by (simp add: val_dsh_lookup fmdom'_notD)
  next
    case (Some t)
    then have kin: "k' \<in> fmdom' (deref st r)" by (rule fmdom'I)
    have t: "dshri_index st r k' = t" by (rule dshri_index_Some[OF Some])
    have "k' \<in> fmdom' (deref ?st' r)" unfolding p(1) by (rule kin)
    then obtain t' where t': "fmlookup (deref ?st' r) k' = Some t'"
      by (auto simp: fmlookup_dom'_iff)
    have "t' = dshri_index ?st' r k'" using dshri_index_Some[OF t'] by simp
    also have "\<dots> = t" using p(2)[of r k'] r t by simp
    finally have tt: "t' = t" .
    have "elems ?st' t = elems st t"
      using p(7)[of t] apart[OF kin] unfolding t by simp
    then show ?thesis using Some t' tt by (simp add: val_dsh_lookup)
  qed
qed

lemma val_dsh_append_at:
  fixes st :: "('key, 'h::zero) store"
  assumes a: "a < length (hmaps st)"
    and k: "key \<in> fmdom' (deref st (MapRef a))"
    and w: "wf_slice st (dshri_index st (MapRef a) key)"
    and apart: "\<And>k'. k' \<in> fmdom' (deref st (MapRef a)) \<Longrightarrow> k' \<noteq> key \<Longrightarrow>
        wf_slice st (dshri_index st (MapRef a) k') \<and>
        readable (dshri_index st (MapRef a) k') \<inter> region (dshri_index st (MapRef a) key) = {}"
  shows "val_dsh (append_at grow st a key x) (MapRef a) =
         fmupd key (elems st (dshri_index st (MapRef a) key) @ [x]) (val_dsh st (MapRef a))"
proof (rule fmap_ext)
  fix k'
  let ?st' = "append_at grow st a key x"
  let ?r = "MapRef a :: 'key mapref"
  note p = append_at_props[OF a k w, where grow = grow and x = x]
  show "fmlookup (val_dsh ?st' ?r) k' =
        fmlookup (fmupd key (elems st (dshri_index st ?r key) @ [x]) (val_dsh st ?r)) k'"
  proof (cases "fmlookup (deref st ?r) k'")
    case None
    then have ne: "k' \<noteq> key" using k by (auto simp: fmlookup_dom'_iff)
    have "k' \<notin> fmdom' (deref ?st' ?r)" unfolding p(1) using None by (simp add: fmdom'_notI)
    then show ?thesis using None ne by (simp add: val_dsh_lookup fmdom'_notD)
  next
    case (Some t)
    then have kin: "k' \<in> fmdom' (deref st ?r)" by (rule fmdom'I)
    have t: "dshri_index st ?r k' = t" by (rule dshri_index_Some[OF Some])
    have "k' \<in> fmdom' (deref ?st' ?r)" unfolding p(1) by (rule kin)
    then obtain t' where t': "fmlookup (deref ?st' ?r) k' = Some t'"
      by (auto simp: fmlookup_dom'_iff)
    have t'': "t' = dshri_index ?st' ?r k'" using dshri_index_Some[OF t'] by simp
    show ?thesis
    proof (cases "k' = key")
      case True
      then show ?thesis using t' t'' p(4) by (simp add: val_dsh_lookup)
    next
      case False
      have tt: "t' = t" unfolding t'' using p(2)[of ?r k'] False t by simp
      have "elems ?st' t = elems st t"
        using p(7)[of t] apart[OF kin False] unfolding t by simp
      then show ?thesis using Some t' tt False by (simp add: val_dsh_lookup)
    qed
  qed
qed

section \<open>One append where no storage is shared\<close>

lemma dsh_ref_absent: "uid \<notin> fmdom' info \<Longrightarrow> dsh_ref info uid = NilMap"
  by (simp add: dsh_ref_def shri_index_def fmdom'_notD)

lemma val_dsh_NilMap [simp]: "val_dsh st NilMap = fmempty"
  by (simp add: val_dsh_def deref_def)

lemma deref_NilMap [simp]: "deref st NilMap = fmempty"
  by (simp add: deref_def)

lemma wf_slice_region_below:
  "wf_slice st t \<Longrightarrow> region t \<subseteq> {..< length (mem st)}"
  by (auto simp: wf_slice_def region_def)

lemma wf_slice_readable:
  "wf_slice st t \<Longrightarrow> readable t \<subseteq> region t"
  by (auto simp: wf_slice_def region_def readable_def)

lemma wf_infoD:
  assumes "wf_info st m" "v \<in> fmdom' m"
  shows "wf_ref st (dsh_ref m v)"
    and "k \<in> fmdom' (deref st (dsh_ref m v)) \<Longrightarrow> wf_slice st (dshri_index st (dsh_ref m v) k)"
  using assms by (simp_all add: wf_info_def)

lemma unsharedD:
  assumes "unshared st info gen"
  shows "wf_info st info" and "wf_info st gen"
    and "\<And>v v'. v \<in> fmdom' info \<Longrightarrow> v' \<in> fmdom' info \<Longrightarrow> v \<noteq> v' \<Longrightarrow>
           dsh_ref info v \<noteq> NilMap \<Longrightarrow> dsh_ref info v \<noteq> dsh_ref info v'"
    and "\<And>v v'. v \<in> fmdom' info \<Longrightarrow> v' \<in> fmdom' gen \<Longrightarrow>
           dsh_ref info v \<noteq> NilMap \<Longrightarrow> dsh_ref info v \<noteq> dsh_ref gen v'"
    and "\<And>v k v' k'. v \<in> fmdom' info \<Longrightarrow> k \<in> fmdom' (deref st (dsh_ref info v)) \<Longrightarrow>
           v' \<in> fmdom' info \<Longrightarrow> k' \<in> fmdom' (deref st (dsh_ref info v')) \<Longrightarrow>
           v \<noteq> v' \<or> k \<noteq> k' \<Longrightarrow>
           region (dshri_index st (dsh_ref info v) k) \<inter>
           region (dshri_index st (dsh_ref info v') k') = {}"
    and "\<And>v k v' k'. v \<in> fmdom' info \<Longrightarrow> k \<in> fmdom' (deref st (dsh_ref info v)) \<Longrightarrow>
           v' \<in> fmdom' gen \<Longrightarrow> k' \<in> fmdom' (deref st (dsh_ref gen v')) \<Longrightarrow>
           region (dshri_index st (dsh_ref info v) k) \<inter>
           readable (dshri_index st (dsh_ref gen v') k') = {}"
proof -
  show "wf_info st info" "wf_info st gen" using assms by (simp_all add: unshared_def)
next
  fix v v' assume "v \<in> fmdom' info" "v' \<in> fmdom' info" "v \<noteq> v'" "dsh_ref info v \<noteq> NilMap"
  moreover have "\<forall>uid \<in> fmdom' info. \<forall>uid' \<in> fmdom' info.
            uid \<noteq> uid' \<longrightarrow> dsh_ref info uid = NilMap \<or> dsh_ref info uid \<noteq> dsh_ref info uid'"
    using assms unfolding unshared_def by (elim conjE)
  ultimately show "dsh_ref info v \<noteq> dsh_ref info v'" by blast
next
  fix v v' assume "v \<in> fmdom' info" "v' \<in> fmdom' gen" "dsh_ref info v \<noteq> NilMap"
  moreover have "\<forall>uid \<in> fmdom' info. \<forall>uid' \<in> fmdom' gen.
            dsh_ref info uid = NilMap \<or> dsh_ref info uid \<noteq> dsh_ref gen uid'"
    using assms unfolding unshared_def by (elim conjE)
  ultimately show "dsh_ref info v \<noteq> dsh_ref gen v'" by blast
next
  fix v k v' k'
  assume "v \<in> fmdom' info" "k \<in> fmdom' (deref st (dsh_ref info v))"
    "v' \<in> fmdom' info" "k' \<in> fmdom' (deref st (dsh_ref info v'))" "v \<noteq> v' \<or> k \<noteq> k'"
  moreover have "\<forall>uid \<in> fmdom' info. \<forall>key \<in> fmdom' (deref st (dsh_ref info uid)).
          \<forall>uid' \<in> fmdom' info. \<forall>key' \<in> fmdom' (deref st (dsh_ref info uid')).
            (uid, key) \<noteq> (uid', key') \<longrightarrow>
            region (dshri_index st (dsh_ref info uid) key) \<inter>
            region (dshri_index st (dsh_ref info uid') key') = {}"
    using assms unfolding unshared_def by (elim conjE)
  ultimately show "region (dshri_index st (dsh_ref info v) k) \<inter>
           region (dshri_index st (dsh_ref info v') k') = {}"
    by (metis prod.inject)
next
  fix v k v' k'
  assume "v \<in> fmdom' info" "k \<in> fmdom' (deref st (dsh_ref info v))"
    "v' \<in> fmdom' gen" "k' \<in> fmdom' (deref st (dsh_ref gen v'))"
  moreover have "\<forall>uid \<in> fmdom' info. \<forall>key \<in> fmdom' (deref st (dsh_ref info uid)).
          \<forall>uid' \<in> fmdom' gen. \<forall>key' \<in> fmdom' (deref st (dsh_ref gen uid')).
            region (dshri_index st (dsh_ref info uid) key) \<inter>
            readable (dshri_index st (dsh_ref gen uid') key') = {}"
    using assms unfolding unshared_def by (elim conjE)
  ultimately show "region (dshri_index st (dsh_ref info v) k) \<inter>
           readable (dshri_index st (dsh_ref gen v') k') = {}"
    by blast
qed

lemma unsharedI:
  assumes "wf_info st info" and "wf_info st gen"
    and "\<And>v v'. v \<in> fmdom' info \<Longrightarrow> v' \<in> fmdom' info \<Longrightarrow> v \<noteq> v' \<Longrightarrow>
           dsh_ref info v \<noteq> NilMap \<Longrightarrow> dsh_ref info v \<noteq> dsh_ref info v'"
    and "\<And>v v'. v \<in> fmdom' info \<Longrightarrow> v' \<in> fmdom' gen \<Longrightarrow>
           dsh_ref info v \<noteq> NilMap \<Longrightarrow> dsh_ref info v \<noteq> dsh_ref gen v'"
    and "\<And>v k v' k'. v \<in> fmdom' info \<Longrightarrow> k \<in> fmdom' (deref st (dsh_ref info v)) \<Longrightarrow>
           v' \<in> fmdom' info \<Longrightarrow> k' \<in> fmdom' (deref st (dsh_ref info v')) \<Longrightarrow>
           v \<noteq> v' \<or> k \<noteq> k' \<Longrightarrow>
           region (dshri_index st (dsh_ref info v) k) \<inter>
           region (dshri_index st (dsh_ref info v') k') = {}"
    and "\<And>v k v' k'. v \<in> fmdom' info \<Longrightarrow> k \<in> fmdom' (deref st (dsh_ref info v)) \<Longrightarrow>
           v' \<in> fmdom' gen \<Longrightarrow> k' \<in> fmdom' (deref st (dsh_ref gen v')) \<Longrightarrow>
           region (dshri_index st (dsh_ref info v) k) \<inter>
           readable (dshri_index st (dsh_ref gen v') k') = {}"
  shows "unshared st info gen"
  unfolding unshared_def
proof (intro conjI ballI impI)
  show "wf_info st info" "wf_info st gen" by fact+
next
  fix uid uid' assume "uid \<in> fmdom' info" "uid' \<in> fmdom' info" "uid \<noteq> uid'"
  then show "dsh_ref info uid = NilMap \<or> dsh_ref info uid \<noteq> dsh_ref info uid'"
    using assms(3)[of uid uid'] by blast
next
  fix uid uid' assume "uid \<in> fmdom' info" "uid' \<in> fmdom' gen"
  then show "dsh_ref info uid = NilMap \<or> dsh_ref info uid \<noteq> dsh_ref gen uid'"
    using assms(4)[of uid uid'] by blast
next
  fix uid key uid' key'
  assume "uid \<in> fmdom' info" "key \<in> fmdom' (deref st (dsh_ref info uid))"
    "uid' \<in> fmdom' info" "key' \<in> fmdom' (deref st (dsh_ref info uid'))"
    "(uid, key) \<noteq> (uid', key')"
  then show "region (dshri_index st (dsh_ref info uid) key) \<inter>
            region (dshri_index st (dsh_ref info uid') key') = {}"
    using assms(5)[of uid key uid' key'] by simp
next
  fix uid key uid' key'
  assume "uid \<in> fmdom' info" "key \<in> fmdom' (deref st (dsh_ref info uid))"
    "uid' \<in> fmdom' gen" "key' \<in> fmdom' (deref st (dsh_ref gen uid'))"
  then show "region (dshri_index st (dsh_ref info uid) key) \<inter>
            readable (dshri_index st (dsh_ref gen uid') key') = {}"
    by (rule assms(6))
qed

lemma wf_info_append_at:
  fixes st :: "('key, 'h::zero) store"
  assumes a: "a < length (hmaps st)"
    and k: "key \<in> fmdom' (deref st (MapRef a))"
    and w: "wf_slice st (dshri_index st (MapRef a) key)"
    and m: "wf_info st m"
  shows "wf_info (append_at grow st a key x) m"
  unfolding wf_info_def
proof (intro ballI conjI)
  let ?st' = "append_at grow st a key x"
  note p = append_at_props[OF a k w, where grow = grow and x = x]
  fix v assume v: "v \<in> fmdom' m"
  show "wf_ref ?st' (dsh_ref m v)" unfolding p(8) by (rule wf_infoD(1)[OF m v])
  fix k' assume "k' \<in> fmdom' (deref ?st' (dsh_ref m v))"
  then have k': "k' \<in> fmdom' (deref st (dsh_ref m v))" unfolding p(1) .
  show "wf_slice ?st' (dshri_index ?st' (dsh_ref m v) k')"
  proof (cases "dsh_ref m v = MapRef a \<and> k' = key")
    case True
    then show ?thesis using p(3) by simp
  next
    case False
    then have "dshri_index ?st' (dsh_ref m v) k' = dshri_index st (dsh_ref m v) k'"
      using p(2)[of "dsh_ref m v" k'] by blast
    then show ?thesis using p(6)[OF wf_infoD(2)[OF m v k']] by simp
  qed
qed

lemma append_at_unshared:
  fixes st :: "('key, 'h::zero) store"
  assumes un: "unshared st info gen"
    and u: "u \<in> fmdom' info"
    and ref: "dsh_ref info u = MapRef a"
    and k: "key \<in> fmdom' (deref st (MapRef a))"
  shows "unshared (append_at grow st a key x) info gen"
    and "val_dsh (append_at grow st a key x) (dsh_ref gen v) = val_dsh st (dsh_ref gen v)"
    and "v \<noteq> u \<Longrightarrow>
         val_dsh (append_at grow st a key x) (dsh_ref info v) = val_dsh st (dsh_ref info v)"
    and "val_dsh (append_at grow st a key x) (MapRef a) =
         fmupd key (elems st (dshri_index st (MapRef a) key) @ [x]) (val_dsh st (MapRef a))"
proof -
  let ?st' = "append_at grow st a key x"
  let ?s = "dshri_index st (MapRef a) key"
  note d = unsharedD[OF un]
  have a: "a < length (hmaps st)"
    using wf_infoD(1)[OF d(1) u] by (simp add: ref wf_ref_def)
  have ku: "key \<in> fmdom' (deref st (dsh_ref info u))" using k by (simp add: ref)
  have w: "wf_slice st ?s" using wf_infoD(2)[OF d(1) u ku] by (simp add: ref)
  note p = append_at_props[OF a k w, where grow = grow and x = x]
  have nn: "dsh_ref info u \<noteq> NilMap" by (simp add: ref)
  have only_u: "v = u" if "v \<in> fmdom' info" "dsh_ref info v = MapRef a" for v
    using d(3)[OF u that(1)] nn that(2) ref by metis
  have not_gen: "dsh_ref gen v \<noteq> MapRef a" for v
  proof (cases "v \<in> fmdom' gen")
    case True
    then show ?thesis using d(4)[OF u True nn] ref by metis
  next
    case False
    then show ?thesis by (simp add: dsh_ref_absent)
  qed
  have fresh: "region t \<inter> region (dshri_index ?st' (MapRef a) key) = {}"
    if "wf_slice st t" "region t \<inter> region ?s = {}" for t
  proof -
    have "region t \<inter> {length (mem st) ..< length (mem ?st')} = {}"
      using wf_slice_region_below[OF that(1)] by auto
    then show ?thesis using p(5) that(2) by blast
  qed
  show "unshared ?st' info gen"
  proof (rule unsharedI)
    show "wf_info ?st' info" by (rule wf_info_append_at[OF a k w d(1)])
    show "wf_info ?st' gen" by (rule wf_info_append_at[OF a k w d(2)])
  next
    fix v v' assume "v \<in> fmdom' info" "v' \<in> fmdom' info" "v \<noteq> v'" "dsh_ref info v \<noteq> NilMap"
    then show "dsh_ref info v \<noteq> dsh_ref info v'" by (rule d(3))
  next
    fix v v' assume "v \<in> fmdom' info" "v' \<in> fmdom' gen" "dsh_ref info v \<noteq> NilMap"
    then show "dsh_ref info v \<noteq> dsh_ref gen v'" by (rule d(4))
  next
    fix v k1 v' k2
    assume v: "v \<in> fmdom' info" and k1': "k1 \<in> fmdom' (deref ?st' (dsh_ref info v))"
      and v': "v' \<in> fmdom' info" and k2': "k2 \<in> fmdom' (deref ?st' (dsh_ref info v'))"
      and ne: "v \<noteq> v' \<or> k1 \<noteq> k2"
    have k1: "k1 \<in> fmdom' (deref st (dsh_ref info v))" using k1' unfolding p(1) .
    have k2: "k2 \<in> fmdom' (deref st (dsh_ref info v'))" using k2' unfolding p(1) .
    have w1: "wf_slice st (dshri_index st (dsh_ref info v) k1)" by (rule wf_infoD(2)[OF d(1) v k1])
    have w2: "wf_slice st (dshri_index st (dsh_ref info v') k2)" by (rule wf_infoD(2)[OF d(1) v' k2])
    have old: "region (dshri_index st (dsh_ref info v) k1) \<inter>
               region (dshri_index st (dsh_ref info v') k2) = {}"
      by (rule d(5)[OF v k1 v' k2 ne])
    consider (first) "dsh_ref info v = MapRef a \<and> k1 = key"
      | (second) "dsh_ref info v' = MapRef a \<and> k2 = key"
      | (neither) "\<not> (dsh_ref info v = MapRef a \<and> k1 = key)"
                  "\<not> (dsh_ref info v' = MapRef a \<and> k2 = key)"
      by blast
    then show "region (dshri_index ?st' (dsh_ref info v) k1) \<inter>
           region (dshri_index ?st' (dsh_ref info v') k2) = {}"
    proof cases
      case first
      then have vu: "v = u" using only_u[OF v] by simp
      have other: "\<not> (dsh_ref info v' = MapRef a \<and> k2 = key)"
        using ne first vu only_u[OF v'] by blast
      have e2: "dshri_index ?st' (dsh_ref info v') k2 = dshri_index st (dsh_ref info v') k2"
        using p(2)[of "dsh_ref info v'" k2] other by blast
      have "region (dshri_index st (dsh_ref info v') k2) \<inter> region ?s = {}"
        using old first by (simp add: Int_commute)
      from fresh[OF w2 this] show ?thesis using first e2 by (simp add: Int_commute)
    next
      case second
      then have vu: "v' = u" using only_u[OF v'] by simp
      have other: "\<not> (dsh_ref info v = MapRef a \<and> k1 = key)"
        using ne second vu only_u[OF v] by blast
      have e1: "dshri_index ?st' (dsh_ref info v) k1 = dshri_index st (dsh_ref info v) k1"
        using p(2)[of "dsh_ref info v" k1] other by blast
      have "region (dshri_index st (dsh_ref info v) k1) \<inter> region ?s = {}"
        using old second by simp
      from fresh[OF w1 this] show ?thesis using second e1 by simp
    next
      case neither
      have e1: "dshri_index ?st' (dsh_ref info v) k1 = dshri_index st (dsh_ref info v) k1"
        using p(2)[of "dsh_ref info v" k1] neither(1) by blast
      have e2: "dshri_index ?st' (dsh_ref info v') k2 = dshri_index st (dsh_ref info v') k2"
        using p(2)[of "dsh_ref info v'" k2] neither(2) by blast
      show ?thesis unfolding e1 e2 by (rule old)
    qed
  next
    fix v k1 v' k2
    assume v: "v \<in> fmdom' info" and k1': "k1 \<in> fmdom' (deref ?st' (dsh_ref info v))"
      and v': "v' \<in> fmdom' gen" and k2': "k2 \<in> fmdom' (deref ?st' (dsh_ref gen v'))"
    have k1: "k1 \<in> fmdom' (deref st (dsh_ref info v))" using k1' unfolding p(1) .
    have k2: "k2 \<in> fmdom' (deref st (dsh_ref gen v'))" using k2' unfolding p(1) .
    have w2: "wf_slice st (dshri_index st (dsh_ref gen v') k2)" by (rule wf_infoD(2)[OF d(2) v' k2])
    have e2: "dshri_index ?st' (dsh_ref gen v') k2 = dshri_index st (dsh_ref gen v') k2"
      using p(2)[of "dsh_ref gen v'" k2] not_gen[of v'] by blast
    have old: "region (dshri_index st (dsh_ref info v) k1) \<inter>
               readable (dshri_index st (dsh_ref gen v') k2) = {}"
      by (rule d(6)[OF v k1 v' k2])
    show "region (dshri_index ?st' (dsh_ref info v) k1) \<inter>
           readable (dshri_index ?st' (dsh_ref gen v') k2) = {}"
    proof (cases "dsh_ref info v = MapRef a \<and> k1 = key")
      case True
      have below: "readable (dshri_index st (dsh_ref gen v') k2) \<subseteq> {..< length (mem st)}"
        using wf_slice_readable[OF w2] wf_slice_region_below[OF w2] by blast
      have "readable (dshri_index st (dsh_ref gen v') k2) \<inter>
              {length (mem st) ..< length (mem ?st')} = {}"
        using below by auto
      moreover have "region ?s \<inter> readable (dshri_index st (dsh_ref gen v') k2) = {}"
        using old True by simp
      ultimately have "region (dshri_index ?st' (MapRef a) key) \<inter>
           readable (dshri_index st (dsh_ref gen v') k2) = {}"
        using p(5) by blast
      then show ?thesis using True e2 by simp
    next
      case False
      have e1: "dshri_index ?st' (dsh_ref info v) k1 = dshri_index st (dsh_ref info v) k1"
        using p(2)[of "dsh_ref info v" k1] False by blast
      show ?thesis unfolding e1 e2 by (rule old)
    qed
  qed
  show "val_dsh ?st' (dsh_ref gen v) = val_dsh st (dsh_ref gen v)"
  proof (cases "v \<in> fmdom' gen")
    case True
    show ?thesis
    proof (rule val_dsh_frame[OF a k w not_gen])
      fix k' assume k': "k' \<in> fmdom' (deref st (dsh_ref gen v))"
      show "wf_slice st (dshri_index st (dsh_ref gen v) k') \<and>
        readable (dshri_index st (dsh_ref gen v) k') \<inter> region ?s = {}"
        using wf_infoD(2)[OF d(2) True k'] d(6)[OF u ku True k']
        by (simp add: ref Int_commute)
    qed
  next
    case False
    then show ?thesis by (simp add: dsh_ref_absent)
  qed
  show "val_dsh ?st' (dsh_ref info v) = val_dsh st (dsh_ref info v)" if vu: "v \<noteq> u"
  proof (cases "v \<in> fmdom' info")
    case True
    have r: "dsh_ref info v \<noteq> MapRef a" using only_u[OF True] vu by blast
    show ?thesis
    proof (rule val_dsh_frame[OF a k w r])
      fix k' assume k': "k' \<in> fmdom' (deref st (dsh_ref info v))"
      have wk: "wf_slice st (dshri_index st (dsh_ref info v) k')"
        by (rule wf_infoD(2)[OF d(1) True k'])
      have "region (dshri_index st (dsh_ref info v) k') \<inter> region ?s = {}"
        using d(5)[OF True k' u ku] vu by (simp add: ref)
      then have "readable (dshri_index st (dsh_ref info v) k') \<inter> region ?s = {}"
        using wf_slice_readable[OF wk] by blast
      then show "wf_slice st (dshri_index st (dsh_ref info v) k') \<and>
        readable (dshri_index st (dsh_ref info v) k') \<inter> region ?s = {}"
        using wk by simp
    qed
  next
    case False
    then show ?thesis by (simp add: dsh_ref_absent)
  qed
  show "val_dsh ?st' (MapRef a) = fmupd key (elems st ?s @ [x]) (val_dsh st (MapRef a))"
  proof (rule val_dsh_append_at[OF a k w])
    fix k' assume k': "k' \<in> fmdom' (deref st (MapRef a))" and ne: "k' \<noteq> key"
    have k'u: "k' \<in> fmdom' (deref st (dsh_ref info u))" using k' by (simp add: ref)
    have wk: "wf_slice st (dshri_index st (MapRef a) k')"
      using wf_infoD(2)[OF d(1) u k'u] by (simp add: ref)
    have "region (dshri_index st (MapRef a) k') \<inter> region ?s = {}"
      using d(5)[OF u k'u u ku] ne by (simp add: ref)
    then have "readable (dshri_index st (MapRef a) k') \<inter> region ?s = {}"
      using wf_slice_readable[OF wk] by blast
    then show "wf_slice st (dshri_index st (MapRef a) k') \<and>
        readable (dshri_index st (MapRef a) k') \<inter> region ?s = {}"
      using wk by simp
  qed
qed

section \<open>The source refines the fold on lists\<close>

lemma wf_slice_nil [simp]: "wf_slice st nil_slice"
  by (simp add: wf_slice_def nil_slice_def)

lemma wf_slice_index:
  assumes "wf_info st m"
  shows "wf_slice st (dshri_index st (dsh_ref m v) key)"
proof (cases "key \<in> fmdom' (deref st (dsh_ref m v))")
  case True
  then have "v \<in> fmdom' m" by (cases "v \<in> fmdom' m") (auto simp: dsh_ref_absent)
  then show ?thesis using wf_infoD(2)[OF assms _ True] by simp
next
  case False
  then show ?thesis by (simp add: dshri_index_def fmdom'_notD)
qed

lemma wf_slice_len: "wf_slice st s \<Longrightarrow> length (elems st s) = len s"
  by (auto simp: wf_slice_def elems_def)

lemma wf_slice_nth0:
  "wf_slice st s \<Longrightarrow> 0 < len s \<Longrightarrow> slice_nth st s 0 = elems st s ! 0"
  by (auto simp: wf_slice_def elems_def slice_nth_def)

lemma dshri_index_val_dsh:
  "dshri_index_val (val_dsh st r) key = elems st (dshri_index st r key)"
  by (cases "fmlookup (deref st r) key")
     (simp_all add: dshri_index_val_def dshri_index_def val_dsh_lookup elems_nil)

lemma map_assign_append_at:
  "map_assign (fst (append_slice grow st (dshri_index st (MapRef a) key) x)) (MapRef a) key
      (snd (append_slice grow st (dshri_index st (MapRef a) key) x)) = append_at grow st a key x"
  by (simp add: append_at_def Let_def)

lemma addGeneration_loop_sim:
  fixes st :: "('key, 'h::zero) store"
  assumes "unshared st info gen" and u: "u \<in> fmdom' info"
  shows "fst (addGeneration_loop grow ks uid (dsh_ref gen v) idc (dsh_ref info u) st) =
           fst (addGeneration_loop_val ks uid (val_dsh st (dsh_ref gen v)) idc
                  (val_dsh st (dsh_ref info u)))
       \<and> val_dsh (snd (addGeneration_loop grow ks uid (dsh_ref gen v) idc (dsh_ref info u) st))
            (dsh_ref info u) =
           snd (addGeneration_loop_val ks uid (val_dsh st (dsh_ref gen v)) idc
                  (val_dsh st (dsh_ref info u)))
       \<and> unshared (snd (addGeneration_loop grow ks uid (dsh_ref gen v) idc (dsh_ref info u) st))
            info gen
       \<and> (\<forall>w. val_dsh (snd (addGeneration_loop grow ks uid (dsh_ref gen v) idc (dsh_ref info u) st))
                 (dsh_ref gen w) = val_dsh st (dsh_ref gen w))
       \<and> (\<forall>w. w \<noteq> u \<longrightarrow>
              val_dsh (snd (addGeneration_loop grow ks uid (dsh_ref gen v) idc (dsh_ref info u) st))
                 (dsh_ref info w) = val_dsh st (dsh_ref info w))"
  using assms(1)
proof (induction ks arbitrary: st idc)
  case Nil
  then show ?case by simp
next
  case (Cons key keys)
  note un = Cons.prems
  let ?g = "dsh_ref gen v"
  let ?r = "dsh_ref info u"
  define sg where "sg = dshri_index st ?g key"
  define sd where "sd = dshri_index st ?r key"
  note d = unsharedD[OF un]
  have wg: "wf_slice st sg" unfolding sg_def by (rule wf_slice_index[OF d(2)])
  have wd: "wf_slice st sd" unfolding sd_def by (rule wf_slice_index[OF d(1)])
  have vg: "dshri_index_val (val_dsh st ?g) key = elems st sg"
    by (simp add: dshri_index_val_dsh sg_def)
  have vd: "dshri_index_val (val_dsh st ?r) key = elems st sd"
    by (simp add: dshri_index_val_dsh sd_def)
  have lg: "length (elems st sg) = len sg" by (rule wf_slice_len[OF wg])
  have ld: "length (elems st sd) = len sd" by (rule wf_slice_len[OF wd])
  have look: "(fmlookup (val_dsh st ?r) key = None) = (fmlookup (deref st ?r) key = None)"
    by (simp add: val_dsh_lookup)
  define idc' where "idc' = (if idc = - 1 then int (len sd) else idc)"
  consider (c1) "idc \<noteq> - 1 \<and> int (len sd) \<noteq> idc"
    | (c2) "\<not> (idc \<noteq> - 1 \<and> int (len sd) \<noteq> idc)" "int (len sg) \<noteq> 1"
    | (c3) "\<not> (idc \<noteq> - 1 \<and> int (len sd) \<noteq> idc)" "int (len sg) = 1"
           "fmlookup (deref st ?r) key = None"
    | (c4) "\<not> (idc \<noteq> - 1 \<and> int (len sd) \<noteq> idc)" "int (len sg) = 1"
           "fmlookup (deref st ?r) key \<noteq> None"
    by blast
  then show ?case
  proof cases
    case c1
    have L: "addGeneration_loop grow (key # keys) uid ?g idc ?r st =
             (Some (IDCountMismatch idc (int (len sd)) uid key), st)"
      using c1 by (simp add: Let_def sd_def[symmetric])
    have R: "addGeneration_loop_val (key # keys) uid (val_dsh st ?g) idc (val_dsh st ?r) =
             (Some (IDCountMismatch idc (int (len sd)) uid key), val_dsh st ?r)"
      using c1 by (simp add: Let_def vd ld)
    show ?thesis unfolding L R using un by simp
  next
    case c2
    have L: "addGeneration_loop grow (key # keys) uid ?g idc ?r st =
             (Some (NotExactlyOneKey (int (len sg)) uid key), st)"
      using c2 by (simp add: Let_def sd_def[symmetric] sg_def[symmetric])
    have R: "addGeneration_loop_val (key # keys) uid (val_dsh st ?g) idc (val_dsh st ?r) =
             (Some (NotExactlyOneKey (int (len sg)) uid key), val_dsh st ?r)"
      using c2 by (simp add: Let_def vd ld vg lg)
    show ?thesis unfolding L R using un by simp
  next
    case c3
    have L: "addGeneration_loop grow (key # keys) uid ?g idc ?r st =
             (Some (NoGenerationInfoForDevice uid key), st)"
      using c3 by (simp add: Let_def sd_def[symmetric] sg_def[symmetric])
    have R: "addGeneration_loop_val (key # keys) uid (val_dsh st ?g) idc (val_dsh st ?r) =
             (Some (NoGenerationInfoForDevice uid key), val_dsh st ?r)"
      using c3 by (simp add: Let_def vd ld vg lg look)
    show ?thesis unfolding L R using un by simp
  next
    case c4
    from c4(3) obtain a where ref: "?r = MapRef a"
      by (cases ?r) simp_all
    have k: "key \<in> fmdom' (deref st (MapRef a))"
      using c4(3) by (auto simp: ref fmlookup_dom'_iff)
    define x where "x = slice_nth st sg 0"
    define st' where "st' = append_at grow st a key x"
    have x: "x = elems st sg ! 0" unfolding x_def using c4(2) by (simp add: wf_slice_nth0[OF wg])
    have sd': "dshri_index st (MapRef a) key = sd" by (simp add: sd_def ref)
    from c4(3) obtain y where y: "fmlookup (deref st (MapRef a)) key = Some y"
      by (auto simp: ref)
    have L: "addGeneration_loop grow (key # keys) uid ?g idc ?r st =
             addGeneration_loop grow keys uid ?g idc' ?r st'"
      using c4(1,2) unfolding st'_def x_def idc'_def append_at_def
      by (auto simp add: Let_def sd_def[symmetric] sg_def[symmetric] ref sd' y)
    have R: "addGeneration_loop_val (key # keys) uid (val_dsh st ?g) idc (val_dsh st ?r) =
             addGeneration_loop_val keys uid (val_dsh st ?g) idc'
               (fmupd key (elems st sd @ [x]) (val_dsh st ?r))"
      using c4 unfolding idc'_def x by (auto simp add: Let_def vd ld vg lg look)
    note s = append_at_unshared[OF un u ref k, where grow = grow and x = x, folded st'_def]
    have g': "val_dsh st' (dsh_ref gen w) = val_dsh st (dsh_ref gen w)" for w by (rule s(2))
    have r': "val_dsh st' ?r = fmupd key (elems st sd @ [x]) (val_dsh st ?r)"
      using s(4) by (simp add: ref sd')
    note ih = Cons.IH[OF s(1), of idc']
    show ?thesis unfolding L R using ih s(3) by (simp add: g' r')
  qed
qed

lemma dsh_ref_Some: "fmlookup m u = Some ri \<Longrightarrow> dsh_ref m u = DeviceServerHalfIDs ri"
  by (simp add: dsh_ref_def shri_index_def)

lemma map_len_val_dsh [simp]: "map_len (val_dsh st r) = map_len (deref st r)"
  by (simp add: map_len_def)

lemma val_info_lookup:
  "fmlookup (val_info st m) u = map_option (val_ri st) (fmlookup m u)"
  by (simp add: val_info_def)

lemma val_info_dom [simp]: "fmdom' (val_info st m) = fmdom' m"
  by (simp add: val_info_def)

lemma map_len_val_info [simp]: "map_len (val_info st m) = map_len m"
  by (simp add: map_len_def)

lemma shri_index_val_info:
  "shri_index_val (val_info st m) u = val_ri st (shri_index m u)"
  by (cases "fmlookup m u")
     (simp_all add: shri_index_val_def shri_index_def val_info_lookup val_ri_def)

lemma val_info_cong:
  assumes "\<And>w. w \<in> fmdom' m \<Longrightarrow> val_dsh st' (dsh_ref m w) = val_dsh st (dsh_ref m w)"
  shows "val_info st' m = val_info st m"
proof (rule fmap_ext)
  fix w
  show "fmlookup (val_info st' m) w = fmlookup (val_info st m) w"
  proof (cases "fmlookup m w")
    case None
    then show ?thesis by (simp add: val_info_lookup)
  next
    case (Some ri)
    then have "w \<in> fmdom' m" by (rule fmdom'I)
    from assms[OF this] show ?thesis
      using Some by (simp add: val_info_lookup val_ri_def dsh_ref_Some[OF Some])
  qed
qed

lemma val_info_upd:
  assumes ri: "fmlookup m u = Some ri"
    and "\<And>w. w \<noteq> u \<Longrightarrow> val_dsh st' (dsh_ref m w) = val_dsh st (dsh_ref m w)"
  shows "val_info st' m = fmupd u (val_ri st' ri) (val_info st m)"
proof (rule fmap_ext)
  fix w
  show "fmlookup (val_info st' m) w = fmlookup (fmupd u (val_ri st' ri) (val_info st m)) w"
  proof (cases "w = u")
    case True
    then show ?thesis using ri by (simp add: val_info_lookup)
  next
    case False
    show ?thesis
    proof (cases "fmlookup m w")
      case None
      then show ?thesis using False by (simp add: val_info_lookup)
    next
      case (Some rw)
      from assms(2)[OF False] show ?thesis
        using Some False by (simp add: val_info_lookup val_ri_def dsh_ref_Some[OF Some])
    qed
  qed
qed

lemma addGeneration_sim:
  fixes st :: "('key, 'h::zero) store"
  assumes un: "unshared st info gen" and ri: "fmlookup info u = Some ri"
  shows "fst (addGeneration grow ks ri uid (shri_index gen v) st) =
           fst (addGeneration_val ks (val_ri st ri) uid (val_ri st (shri_index gen v)))"
    and "val_ri (snd (addGeneration grow ks ri uid (shri_index gen v) st)) ri =
           snd (addGeneration_val ks (val_ri st ri) uid (val_ri st (shri_index gen v)))"
    and "unshared (snd (addGeneration grow ks ri uid (shri_index gen v) st)) info gen"
    and "val_dsh (snd (addGeneration grow ks ri uid (shri_index gen v) st)) (dsh_ref gen w) =
           val_dsh st (dsh_ref gen w)"
    and "w \<noteq> u \<Longrightarrow>
         val_dsh (snd (addGeneration grow ks ri uid (shri_index gen v) st)) (dsh_ref info w) =
           val_dsh st (dsh_ref info w)"
proof -
  have u: "u \<in> fmdom' info" using ri by (rule fmdom'I)
  have r: "DeviceServerHalfIDs ri = dsh_ref info u" by (simp add: dsh_ref_Some[OF ri])
  have g: "DeviceServerHalfIDs (shri_index gen v) = dsh_ref gen v" by (simp add: dsh_ref_def)
  note sim = addGeneration_loop_sim[OF un u, where grow = grow and ks = ks and uid = uid
      and v = v and idc = "- 1"]
  let ?L = "addGeneration grow ks ri uid (shri_index gen v) st"
  let ?R = "addGeneration_val ks (val_ri st ri) uid (val_ri st (shri_index gen v))"
  consider (flag) "UserRemoved ri \<noteq> UserRemoved (shri_index gen v)"
    | (count) "UserRemoved ri = UserRemoved (shri_index gen v)"
        "map_len (deref st (dsh_ref info u)) \<noteq> map_len (deref st (dsh_ref gen v))"
    | (loop) "UserRemoved ri = UserRemoved (shri_index gen v)"
        "map_len (deref st (dsh_ref info u)) = map_len (deref st (dsh_ref gen v))"
    by blast
  then have "fst ?L = fst ?R \<and> val_ri (snd ?L) ri = snd ?R \<and> unshared (snd ?L) info gen
     \<and> val_dsh (snd ?L) (dsh_ref gen w) = val_dsh st (dsh_ref gen w)
     \<and> (w \<noteq> u \<longrightarrow> val_dsh (snd ?L) (dsh_ref info w) = val_dsh st (dsh_ref info w))"
  proof cases
    case flag
    then show ?thesis using un by (simp add: addGeneration_def addGeneration_val_def val_ri_def)
  next
    case count
    then show ?thesis
      using un by (simp add: addGeneration_def addGeneration_val_def val_ri_def r g)
  next
    case loop
    have L: "?L = addGeneration_loop grow ks uid (dsh_ref gen v) (- 1) (dsh_ref info u) st"
      using loop by (simp add: addGeneration_def r g)
    have R: "?R = (fst (addGeneration_loop_val ks uid (val_dsh st (dsh_ref gen v)) (- 1)
                (val_dsh st (dsh_ref info u))),
              \<lparr>UserRemoved_val = UserRemoved ri, DeviceServerHalfIDs_val =
                 snd (addGeneration_loop_val ks uid (val_dsh st (dsh_ref gen v)) (- 1)
                (val_dsh st (dsh_ref info u)))\<rparr>)"
      using loop by (simp add: addGeneration_val_def val_ri_def r g split: prod.splits)
    show ?thesis unfolding L R using sim by (simp add: val_ri_def r)
  qed
  then show "fst ?L = fst ?R" "val_ri (snd ?L) ri = snd ?R" "unshared (snd ?L) info gen"
    "val_dsh (snd ?L) (dsh_ref gen w) = val_dsh st (dsh_ref gen w)"
    "w \<noteq> u \<Longrightarrow> val_dsh (snd ?L) (dsh_ref info w) = val_dsh st (dsh_ref info w)"
    by simp_all
qed

lemma AddGeneration_loop_sim:
  fixes st :: "('key, 'h::zero) store"
  assumes "unshared st info gen"
  shows "fst (AddGeneration_loop grow us ko gen info st) =
           fst (AddGeneration_loop_val us ko (val_info st gen) (val_info st info))
       \<and> val_info (snd (AddGeneration_loop grow us ko gen info st)) info =
           snd (AddGeneration_loop_val us ko (val_info st gen) (val_info st info))
       \<and> val_info (snd (AddGeneration_loop grow us ko gen info st)) gen = val_info st gen
       \<and> unshared (snd (AddGeneration_loop grow us ko gen info st)) info gen"
  using assms
proof (induction us arbitrary: st)
  case Nil
  then show ?case by simp
next
  case (Cons uid uids)
  note un = Cons.prems
  show ?case
  proof (cases "fmlookup info uid")
    case None
    then show ?thesis using un by (simp add: val_info_lookup)
  next
    case (Some ri)
    define res where "res = addGeneration grow (ko uid) ri uid (shri_index gen uid) st"
    define resv where
      "resv = addGeneration_val (ko uid) (val_ri st ri) uid (val_ri st (shri_index gen uid))"
    note s = addGeneration_sim[OF un Some, where grow = grow and ks = "ko uid"
        and uid = uid and v = uid, folded res_def resv_def]
    have gen': "val_info (snd res) gen = val_info st gen"
      by (rule val_info_cong) (rule s(4))
    have info': "val_info (snd res) info = fmupd uid (snd resv) (val_info st info)"
      using val_info_upd[OF Some, of "snd res" st] s(5) s(2) by simp
    show ?thesis
    proof (cases "fst res")
      case None
      obtain st1 where rs: "res = (None, st1)" using None by (cases res) simp
      obtain r1 where rv: "resv = (None, r1)" using None s(1) by (cases resv) simp
      have L: "AddGeneration_loop grow (uid # uids) ko gen info st =
               AddGeneration_loop grow uids ko gen info st1"
        using Some by (simp add: res_def[symmetric] rs)
      have R: "AddGeneration_loop_val (uid # uids) ko (val_info st gen) (val_info st info) =
               AddGeneration_loop_val uids ko (val_info st gen)
                 (fmupd uid r1 (val_info st info))"
        using Some
        by (simp add: val_info_lookup shri_index_val_info resv_def[symmetric] rv)
      have un1: "unshared st1 info gen" using s(3) by (simp add: rs)
      show ?thesis unfolding L R using Cons.IH[OF un1] gen' info' by (simp add: rs rv)
    next
      case (Some err)
      obtain st1 where rs: "res = (Some err, st1)" using Some by (cases res) simp
      obtain r1 where rv: "resv = (Some err, r1)" using Some s(1) by (cases resv) simp
      have L: "AddGeneration_loop grow (uid # uids) ko gen info st = (Some err, st1)"
        using \<open>fmlookup info uid = Some ri\<close> by (simp add: res_def[symmetric] rs)
      have R: "AddGeneration_loop_val (uid # uids) ko (val_info st gen) (val_info st info) =
               (Some err, fmupd uid r1 (val_info st info))"
        using \<open>fmlookup info uid = Some ri\<close>
        by (simp add: val_info_lookup shri_index_val_info resv_def[symmetric] rv)
      show ?thesis unfolding L R using s(3) gen' info' by (simp add: rs rv)
    qed
  qed
qed

lemma AddGeneration_refines:
  fixes st :: "('key, 'h::zero) store"
  assumes "unshared st info gen"
  shows "fst (AddGeneration grow us ko info gen st) =
           fst (AddGeneration_val us ko (val_info st info) (val_info st gen))"
    and "val_info (snd (AddGeneration grow us ko info gen st)) info =
           snd (AddGeneration_val us ko (val_info st info) (val_info st gen))"
    and "val_info (snd (AddGeneration grow us ko info gen st)) gen = val_info st gen"
    and "unshared (snd (AddGeneration grow us ko info gen st)) info gen"
  using AddGeneration_loop_sim[OF assms, where grow = grow and us = us and ko = ko] assms
  by (simp_all add: AddGeneration_def AddGeneration_val_def)

section \<open>The device sets of a store\<close>

text \<open>In every store, shared or not, \<^verbatim>\<open>AddGeneration\<close> leaves the key set of every map as it was.\<close>

lemma assign_dom:
  fixes st :: "('key, 'h::zero) store"
  assumes "fmlookup (deref st dsh) key \<noteq> None"
  shows "fmdom' (deref (map_assign (fst (append_slice grow st s x)) dsh key v) r) =
         fmdom' (deref st r)"
proof (cases dsh)
  case NilMap
  then show ?thesis using assms by simp
next
  case (MapRef a)
  have a: "a < length (hmaps st)"
    using assms unfolding MapRef by (cases "a < length (hmaps st)") (simp_all add: deref_def)
  then have a': "a < length (hmaps (fst (append_slice grow st s x)))"
    by (simp add: append_slice_hmaps)
  have k: "key \<in> fmdom' (deref st (MapRef a))"
    using assms unfolding MapRef by (auto simp: fmlookup_dom'_iff)
  show ?thesis unfolding MapRef deref_map_assign[OF a'] using k by auto
qed

lemma addGeneration_loop_devices:
  fixes st :: "('key, 'h::zero) store"
  shows "fmdom' (deref (snd (addGeneration_loop grow ks uid gen idc dsh st)) r) =
         fmdom' (deref st r)"
proof (induction ks arbitrary: st idc)
  case Nil
  then show ?case by simp
next
  case (Cons key keys)
  show ?case
    by (simp add: Let_def Cons.IH assign_dom)
qed

lemma addGeneration_devices:
  fixes st :: "('key, 'h::zero) store"
  shows "fmdom' (deref (snd (addGeneration grow ks ri uid g st)) r) = fmdom' (deref st r)"
  by (simp add: addGeneration_def addGeneration_loop_devices)

lemma AddGeneration_loop_devices:
  fixes st :: "('key, 'h::zero) store"
  shows "fmdom' (deref (snd (AddGeneration_loop grow us ko genInfo info st)) r) =
         fmdom' (deref st r)"
proof (induction us arbitrary: st)
  case Nil
  then show ?case by simp
next
  case (Cons uid uids)
  show ?case
  proof (cases "fmlookup info uid")
    case None
    then show ?thesis by simp
  next
    case (Some ri)
    obtain e st1 where res: "addGeneration grow (ko uid) ri uid (shri_index genInfo uid) st = (e, st1)"
      by (cases "addGeneration grow (ko uid) ri uid (shri_index genInfo uid) st")
    have d: "fmdom' (deref st1 r) = fmdom' (deref st r)"
      using addGeneration_devices[of grow "ko uid" ri uid "shri_index genInfo uid" st r] res
      by simp
    show ?thesis using Some res d by (cases e) (simp_all add: Cons.IH)
  qed
qed

lemma AddGeneration_devices:
  fixes st :: "('key, 'h::zero) store"
  shows "devices (snd (AddGeneration grow us ko info genInfo st)) m uid = devices st m uid"
  by (simp add: AddGeneration_def devices_def AddGeneration_loop_devices)

section \<open>A generation into the history\<close>

text \<open>
  What the fold on lists says of records read with their lists is what the store
  holds: the structural conditions, what an error describes, and the orders of
  iteration.
\<close>

lemma devices_val:
  "fmdom' (DeviceServerHalfIDs_val (shri_index_val (val_info st m) u)) = devices st m u"
  by (simp add: shri_index_val_info val_ri_def devices_def dsh_ref_def)

lemma device_ids_val:
  "dshri_index_val (DeviceServerHalfIDs_val (shri_index_val (val_info st m) u)) k =
     device_ids st m u k"
  by (simp add: shri_index_val_info val_ri_def device_ids_def dsh_ref_def dshri_index_val_dsh)

lemma flag_val:
  "UserRemoved_val (shri_index_val (val_info st m) u) = UserRemoved (shri_index m u)"
  by (simp add: shri_index_val_info val_ri_def)

lemma count_val:
  "map_len (DeviceServerHalfIDs_val (shri_index_val (val_info st m) u)) =
     map_len (deref st (dsh_ref m u))"
  by (simp add: shri_index_val_info val_ri_def dsh_ref_def)

lemmas val_bridge = devices_val device_ids_val flag_val count_val

lemma structural_ok_val_info:
  "structural_ok_val (val_info st info) (val_info st genInfo) = structural_ok st info genInfo"
  by (simp add: structural_ok_val_def structural_ok_def val_bridge)


lemma range_order_val_info: "range_order us (val_info st m) = range_order us m"
  by (simp add: range_order_def)

lemma range_order_val:
  "range_order ks (DeviceServerHalfIDs_val (shri_index_val (val_info st m) u)) =
     range_order ks (deref st (dsh_ref m u))"
  by (simp add: range_order_def devices_val devices_def)

lemma orders_val:
  assumes "range_order us genInfo"
    and "\<forall>uid \<in> fmdom' genInfo. range_order (ko uid) (deref st (dsh_ref genInfo uid))"
  shows "range_order us (val_info st genInfo)"
    and "\<forall>uid \<in> fmdom' (val_info st genInfo).
           range_order (ko uid)
             (DeviceServerHalfIDs_val (shri_index_val (val_info st genInfo) uid))"
  using assms by (simp_all add: range_order_val_info range_order_val)

lemma device_ids_cong:
  "val_info st' m = val_info st m \<Longrightarrow> device_ids st' m u k = device_ids st m u k"
  using device_ids_val[of st' m u k] device_ids_val[of st m u k] by simp


text \<open>
  C1, as stated, fails where storage is shared (the sample store with a shared map,
  below). C1, amended: on a history and a generation that share no storage and meet
  the structural conditions, for every order in which the users and the devices are
  visited and every growth of the arrays, \<^verbatim>\<open>AddGeneration\<close> returns no error, every
  device the generation names then holds the list it held before with the single ID
  of the generation appended at the end, the history has the devices it had, and the
  lists of the generation are as they were.
\<close>

theorem AddGeneration_appends:
  fixes st :: "('key, 'h::zero) store"
  assumes us: "range_order us genInfo"
    and ko: "\<forall>uid \<in> fmdom' genInfo. range_order (ko uid) (deref st (dsh_ref genInfo uid))"
    and un: "unshared st info genInfo"
    and ok: "structural_ok st info genInfo"
  shows "fst (AddGeneration grow us ko info genInfo st) = None
       \<and> (\<forall>uid \<in> fmdom' genInfo. \<forall>key \<in> devices st genInfo uid.
            \<exists>x. device_ids st genInfo uid key = [x] \<and>
                device_ids (snd (AddGeneration grow us ko info genInfo st)) info uid key =
                  device_ids st info uid key @ [x])
       \<and> (\<forall>uid. devices (snd (AddGeneration grow us ko info genInfo st)) info uid =
                  devices st info uid)
       \<and> (\<forall>uid key. device_ids (snd (AddGeneration grow us ko info genInfo st)) genInfo uid key =
                  device_ids st genInfo uid key)"
proof -
  let ?st' = "snd (AddGeneration grow us ko info genInfo st)"
  let ?v = "AddGeneration_val us ko (val_info st info) (val_info st genInfo)"
  note r = AddGeneration_refines[OF un, of grow us ko]
  have okv: "structural_ok_val (val_info st info) (val_info st genInfo)"
    using ok by (simp add: structural_ok_val_info)
  note a = AddGeneration_val_appends[OF orders_val[OF us ko] okv]
  have none: "fst (AddGeneration grow us ko info genInfo st) = None"
    using a unfolding r(1)[symmetric] by (rule conjunct1)
  have app: "\<forall>uid \<in> fmdom' genInfo. \<forall>key \<in> devices st genInfo uid.
            \<exists>x. device_ids st genInfo uid key = [x] \<and>
                device_ids ?st' info uid key = device_ids st info uid key @ [x]"
    using a unfolding r(2)[symmetric] val_bridge val_info_dom by blast
  have dev: "devices ?st' info uid = devices st info uid" for uid
  proof (cases "uid \<in> fmdom' info")
    case True
    then show ?thesis using a unfolding r(2)[symmetric] val_bridge val_info_dom by blast
  next
    case False
    then show ?thesis by (simp add: devices_def dsh_ref_absent)
  qed
  have gen: "device_ids ?st' genInfo uid key = device_ids st genInfo uid key" for uid key
    by (rule device_ids_cong[OF r(3)])
  show ?thesis using none app dev gen by blast
qed

text \<open>
  C2, as stated, fails (the sample store with a long list, below). C2, amended: when
  \<^verbatim>\<open>AddGeneration\<close> returns an error on a history and a generation that share no
  storage, the appends made before the failing check stay and nothing else has
  changed. Every device of a user visited before the user the error names, and every
  device of that user visited before the device the error names, holds the list it
  held before with the single ID of the generation appended; every other device, the
  device the error names among them, holds the list it held before. The error names
  a user of the generation, and a device of that user when it names a device; when
  it names no user, the store is as it was. The history has the devices it had and
  the lists of the generation are as they were.
\<close>

theorem AddGeneration_error_keeps_appends:
  fixes st :: "('key, 'h::zero) store"
  assumes us: "range_order us genInfo"
    and ko: "\<forall>uid \<in> fmdom' genInfo. range_order (ko uid) (deref st (dsh_ref genInfo uid))"
    and un: "unshared st info genInfo"
    and e: "fst (AddGeneration grow us ko info genInfo st) = Some e"
  shows "(\<forall>uid key.
            device_ids (snd (AddGeneration grow us ko info genInfo st)) info uid key =
              (if appended_before e us ko uid key
               then device_ids st info uid key @ device_ids st genInfo uid key
               else device_ids st info uid key))
       \<and> (\<forall>uid key. appended_before e us ko uid key \<longrightarrow>
            length (device_ids st genInfo uid key) = 1 \<and> key \<in> devices st info uid)
       \<and> (\<forall>uf. error_user e = Some uf \<longrightarrow>
            uf \<in> fmdom' genInfo \<and>
            (\<forall>kf. error_device e = Some kf \<longrightarrow>
               kf \<in> devices st genInfo uf \<and> \<not> appended_before e us ko uf kf))
       \<and> (error_user e = None \<longrightarrow> snd (AddGeneration grow us ko info genInfo st) = st)
       \<and> (\<forall>uid. devices (snd (AddGeneration grow us ko info genInfo st)) info uid =
                  devices st info uid)
       \<and> (\<forall>uid key. device_ids (snd (AddGeneration grow us ko info genInfo st)) genInfo uid key =
                  device_ids st genInfo uid key)"
proof -
  let ?st' = "snd (AddGeneration grow us ko info genInfo st)"
  note r = AddGeneration_refines[OF un, of grow us ko]
  note o = orders_val[OF us ko]
  have ev: "fst (AddGeneration_val us ko (val_info st info) (val_info st genInfo)) = Some e"
    using e unfolding r(1) .
  note s = AddGeneration_val_error_state[OF o ev, unfolded r(2)[symmetric] val_bridge]
  have setus: "set us = fmdom' genInfo" using us by (simp add: range_order_def)
  have c1: "device_ids ?st' info uid key =
              (if appended_before e us ko uid key
               then device_ids st info uid key @ device_ids st genInfo uid key
               else device_ids st info uid key)" for uid key
    by (rule s(1))
  have c2: "appended_before e us ko uid key \<longrightarrow>
            length (device_ids st genInfo uid key) = 1 \<and> key \<in> devices st info uid" for uid key
    using s(2) by blast
  have c3: "uf \<in> fmdom' genInfo \<and>
            (\<forall>kf. error_device e = Some kf \<longrightarrow>
               kf \<in> devices st genInfo uf \<and> \<not> appended_before e us ko uf kf)"
    if uf: "error_user e = Some uf" for uf
  proof (intro conjI allI impI)
    show ug: "uf \<in> fmdom' genInfo" using s(3)[OF uf] setus by simp
    fix kf assume kf: "error_device e = Some kf"
    have "kf \<in> set (ko uf)" by (rule s(4)[OF uf kf])
    then show "kf \<in> devices st genInfo uf"
      using ko ug by (simp add: range_order_def devices_def)
    have "uf \<notin> set (takeWhile (\<lambda>u. u \<noteq> uf) us)" using set_takeWhileD by fastforce
    moreover have "kf \<notin> set (takeWhile (\<lambda>k. k \<noteq> kf) (ko uf))"
      using set_takeWhileD by fastforce
    ultimately show "\<not> appended_before e us ko uf kf"
      by (simp add: appended_before_def visited_users_def visited_devices_def uf kf)
  qed
  have c4: "?st' = st" if "error_user e = None"
  proof (cases "map_len info = map_len genInfo")
    case True
    then have "fst (AddGeneration_loop_val us ko (val_info st genInfo) (val_info st info)) = Some e"
      using ev by (simp add: AddGeneration_val_def)
    from AddGeneration_loop_val_error_state[OF orders_distinct(1,2)[OF o] this]
    show ?thesis using that by auto
  next
    case False
    then show ?thesis by (simp add: AddGeneration_def)
  qed
  have c5: "devices ?st' info uid = devices st info uid" for uid
  proof -
    have "fmdom' (DeviceServerHalfIDs_val (shri_index_val
             (snd (AddGeneration_val us ko (val_info st info) (val_info st genInfo))) uid)) =
          fmdom' (DeviceServerHalfIDs_val (shri_index_val (val_info st info) uid))"
      by (rule AddGeneration_val_frame(3)[OF orders_distinct(1)[OF o]])
    then show ?thesis unfolding r(2)[symmetric] val_bridge .
  qed
  have c6: "device_ids ?st' genInfo uid key = device_ids st genInfo uid key" for uid key
    by (rule device_ids_cong[OF r(3)])
  show ?thesis using c1 c2 c3 c4 c5 c6 by (intro conjI allI impI) blast+
qed

section \<open>Users without devices\<close>

lemma addGeneration_empty:
  fixes st :: "('key, 'h::zero) store"
  assumes "range_order ks (deref st (DeviceServerHalfIDs g))"
    and "deref st (DeviceServerHalfIDs ri) = fmempty" "deref st (DeviceServerHalfIDs g) = fmempty"
    and "UserRemoved ri = UserRemoved g"
  shows "addGeneration grow ks ri uid g st = (None, st)"
proof -
  have "ks = []" using assms(1,3) by (simp add: range_order_empty)
  then show ?thesis using assms(2,3,4) by (simp add: addGeneration_def map_len_empty)
qed

lemma fmdom'_empty: "fmdom' m = {} \<Longrightarrow> m = fmempty"
  using map_len_zero_iff[of m] by (simp add: map_len_def)

lemma val_dsh_empty: "fmdom' (deref st r) = {} \<Longrightarrow> val_dsh st r = fmempty"
  using fmdom'_empty[of "val_dsh st r"] by simp

text \<open>
  C10: \<^verbatim>\<open>AddGeneration\<close> on an empty history and an empty generation returns no
  error and leaves the store, and so the history, as it was; the fold of
  \<^verbatim>\<open>addGeneration\<close> over a user with no device in the history and none in the
  generation, the flags agreeing, returns no error and leaves the store as it was;
  and in a call of \<^verbatim>\<open>AddGeneration\<close> on inputs that meet the structural conditions,
  a user for whom the generation names no device has none in the history either,
  before and after the call, and keeps its record, and the call returns no error
  where no storage is shared. The first two hold in every store.
\<close>

theorem AddGeneration_no_devices:
  fixes st :: "('key, 'h::zero) store"
  assumes us: "range_order us genInfo"
    and ko: "\<forall>uid \<in> fmdom' genInfo. range_order (ko uid) (deref st (dsh_ref genInfo uid))"
    and ks: "range_order ks (deref st (DeviceServerHalfIDs g))"
  shows "(info = fmempty \<and> genInfo = fmempty \<longrightarrow>
            AddGeneration grow us ko info genInfo st = (None, st))
       \<and> (deref st (DeviceServerHalfIDs ri) = fmempty \<and>
          deref st (DeviceServerHalfIDs g) = fmempty \<and> UserRemoved ri = UserRemoved g \<longrightarrow>
            addGeneration grow ks ri uid g st = (None, st))
       \<and> (structural_ok st info genInfo \<and> uid \<in> fmdom' genInfo \<and>
          devices st genInfo uid = {} \<longrightarrow>
            devices st info uid = {} \<and>
            devices (snd (AddGeneration grow us ko info genInfo st)) info uid = {} \<and>
            fmlookup (val_info (snd (AddGeneration grow us ko info genInfo st)) info) uid =
              fmlookup (val_info st info) uid \<and>
            (unshared st info genInfo \<longrightarrow>
               fst (AddGeneration grow us ko info genInfo st) = None))"
proof (intro conjI impI)
  assume a: "info = fmempty \<and> genInfo = fmempty"
  then have "us = []" using range_order_empty[of us] us by simp
  then show "AddGeneration grow us ko info genInfo st = (None, st)"
    using a by (simp add: AddGeneration_def)
next
  assume "deref st (DeviceServerHalfIDs ri) = fmempty \<and>
          deref st (DeviceServerHalfIDs g) = fmempty \<and> UserRemoved ri = UserRemoved g"
  then show "addGeneration grow ks ri uid g st = (None, st)"
    by (elim conjE) (rule addGeneration_empty[OF ks])
next
  let ?st' = "snd (AddGeneration grow us ko info genInfo st)"
  assume a: "structural_ok st info genInfo \<and> uid \<in> fmdom' genInfo \<and>
          devices st genInfo uid = {}"
  then have ok: "structural_ok st info genInfo"
    and ug: "uid \<in> fmdom' genInfo" and ge: "devices st genInfo uid = {}" by auto
  have ui: "uid \<in> fmdom' info" using ok ug by (simp add: structural_ok_def)
  have "map_len (deref st (dsh_ref info uid)) = map_len (deref st (dsh_ref genInfo uid))"
    using ok ug ui by (simp add: structural_ok_def)
  then have "map_len (deref st (dsh_ref info uid)) = 0"
    using ge by (simp add: devices_def map_len_def)
  then show ie: "devices st info uid = {}"
    by (simp add: map_len_zero_iff devices_def)
  show ie': "devices ?st' info uid = {}"
    using ie by (simp add: AddGeneration_devices)
  obtain ri' where ri': "fmlookup info uid = Some ri'" using ui by (auto simp: fmlookup_dom'_iff)
  have "val_ri ?st' ri' = val_ri st ri'"
    using val_dsh_empty[of st "dsh_ref info uid"] val_dsh_empty[of ?st' "dsh_ref info uid"]
      ie ie' by (simp add: val_ri_def devices_def dsh_ref_Some[OF ri'])
  then show "fmlookup (val_info ?st' info) uid = fmlookup (val_info st info) uid"
    by (simp add: val_info_lookup ri')
next
  assume a: "structural_ok st info genInfo \<and> uid \<in> fmdom' genInfo \<and>
          devices st genInfo uid = {}"
    and un: "unshared st info genInfo"
  have okv: "structural_ok_val (val_info st info) (val_info st genInfo)"
    using a by (simp add: structural_ok_val_info)
  show "fst (AddGeneration grow us ko info genInfo st) = None"
    unfolding AddGeneration_refines(1)[OF un]
    using AddGeneration_val_ok_iff[OF orders_val[OF us ko]] okv by simp
qed

section \<open>Removal bookkeeping on the sample stores\<close>

lemmas store_samples =
  store_happy_def history_one_user_def generation_one_user_def
  store_shared_map_def history_shared_map_def generation_two_users_def
  store_shared_array_def store_long_list_def
  store_borrowed_map_def history_two_users_def generation_borrowed_map_def
  store_keyless_def history_keyless_def generation_keyless_def grow_double_def

lemmas store_eval =
  AddGeneration_def addGeneration_def Let_def map_len_def shri_index_def dshri_index_def
  range_order_def deref_def elems_def slice_nth_def append_slice_def map_assign_def
  device_ids_def devices_def dsh_ref_def nil_slice_def zero_TLFCryptKeyServerHalfID_def

lemmas unshared_eval =
  unshared_def wf_info_def wf_slice_def wf_ref_def region_def readable_def

text \<open>
  The happy path of the specification: the history holds \<open>[11]\<close> for device \<open>7\<close> of
  user \<open>2\<close>, the generation brings \<open>[13]\<close>, and the history then holds \<open>[11, 13]\<close>.
\<close>

theorem AddGeneration_appends_witness:
  "range_order [2] generation_one_user
   \<and> range_order [7] (deref store_happy (dsh_ref generation_one_user 2))
   \<and> unshared store_happy history_one_user generation_one_user
   \<and> structural_ok store_happy history_one_user generation_one_user
   \<and> fst (AddGeneration grow_double [2] (\<lambda>u. [7]) history_one_user generation_one_user
            store_happy) = None
   \<and> device_ids store_happy history_one_user 2 7 = [\<lparr>ID = 11\<rparr>]
   \<and> device_ids store_happy generation_one_user 2 7 = [\<lparr>ID = 13\<rparr>]
   \<and> device_ids (snd (AddGeneration grow_double [2] (\<lambda>u. [7]) history_one_user
                        generation_one_user store_happy)) history_one_user 2 7 =
       [\<lparr>ID = 11\<rparr>, \<lparr>ID = 13\<rparr>]"
proof -
  have h1: "range_order [2] generation_one_user"
    by (simp add: store_samples store_eval)
  have h2: "\<forall>uid \<in> fmdom' generation_one_user.
      range_order ((\<lambda>u. [7]) uid) (deref store_happy (dsh_ref generation_one_user uid))"
    by (simp add: store_samples store_eval)
  have h2': "range_order [7] (deref store_happy (dsh_ref generation_one_user 2))"
    by (simp add: store_samples store_eval)
  have h3: "unshared store_happy history_one_user generation_one_user"
    by (simp add: unshared_eval store_samples store_eval)
  have h4: "structural_ok store_happy history_one_user generation_one_user"
    by (simp add: structural_ok_def store_samples store_eval)
  have old: "device_ids store_happy history_one_user 2 7 = [\<lparr>ID = 11\<rparr>]"
    by (simp add: store_samples store_eval)
  have new: "device_ids store_happy generation_one_user 2 7 = [\<lparr>ID = 13\<rparr>]"
    by (simp add: store_samples store_eval)
  have dev: "2 \<in> fmdom' generation_one_user" "7 \<in> devices store_happy generation_one_user 2"
    by (simp_all add: store_samples store_eval)
  note t = AddGeneration_appends[OF h1 h2 h3 h4, of grow_double]
  have none: "fst (AddGeneration grow_double [2] (\<lambda>u. [7]) history_one_user
                     generation_one_user store_happy) = None"
    using t by (rule conjunct1)
  have "\<exists>x. device_ids store_happy generation_one_user 2 7 = [x] \<and>
       device_ids (snd (AddGeneration grow_double [2] (\<lambda>u. [7]) history_one_user
                        generation_one_user store_happy)) history_one_user 2 7 =
       device_ids store_happy history_one_user 2 7 @ [x]"
    using t dev by blast
  then have res: "device_ids (snd (AddGeneration grow_double [2] (\<lambda>u. [7]) history_one_user
                        generation_one_user store_happy)) history_one_user 2 7 =
       [\<lparr>ID = 11\<rparr>, \<lparr>ID = 13\<rparr>]"
    unfolding old new by auto
  show ?thesis using h1 h2' h3 h4 none old new res by (intro conjI)
qed

text \<open>
  C1, as stated, fails: users \<open>2\<close> and \<open>3\<close> of the history hold the same device
  map, with \<open>[11]\<close> for device \<open>7\<close>, and the generation brings \<open>[21]\<close> for user \<open>2\<close>
  and \<open>[31]\<close> for user \<open>3\<close>. The structural conditions hold and the call returns no
  error, but the list of device \<open>7\<close> of user \<open>2\<close> is then \<open>[11, 21, 31]\<close>, not
  \<open>[11, 21]\<close>: the append for user \<open>3\<close> went to the same list.
\<close>

theorem AddGeneration_shared_map:
  "range_order [2, 3] generation_two_users
   \<and> range_order [7] (deref store_shared_map (dsh_ref generation_two_users 2))
   \<and> range_order [7] (deref store_shared_map (dsh_ref generation_two_users 3))
   \<and> wf_info store_shared_map history_shared_map
   \<and> wf_info store_shared_map generation_two_users
   \<and> structural_ok store_shared_map history_shared_map generation_two_users
   \<and> fst (AddGeneration grow_double [2, 3] (\<lambda>u. [7]) history_shared_map generation_two_users
            store_shared_map) = None
   \<and> device_ids store_shared_map history_shared_map 2 7 = [\<lparr>ID = 11\<rparr>]
   \<and> device_ids store_shared_map generation_two_users 2 7 = [\<lparr>ID = 21\<rparr>]
   \<and> device_ids (snd (AddGeneration grow_double [2, 3] (\<lambda>u. [7]) history_shared_map
                        generation_two_users store_shared_map)) history_shared_map 2 7 =
       [\<lparr>ID = 11\<rparr>, \<lparr>ID = 21\<rparr>, \<lparr>ID = 31\<rparr>]"
proof (intro conjI)
  show "structural_ok store_shared_map history_shared_map generation_two_users"
    by (simp add: structural_ok_def store_samples store_eval)
  show "wf_info store_shared_map history_shared_map"
    by (simp add: unshared_eval store_samples store_eval)
  show "wf_info store_shared_map generation_two_users"
    by (simp add: unshared_eval store_samples store_eval)
qed (auto simp add: store_samples store_eval)

text \<open>
  So it is with two slices of one array: the lists of devices \<open>7\<close> and \<open>8\<close> both
  start at cell \<open>0\<close> with a spare cell; the append for device \<open>8\<close> writes \<open>22\<close> into
  the cell where the append for device \<open>7\<close> wrote \<open>21\<close>.
\<close>

lemma AddGeneration_shared_array:
  "range_order [2] generation_one_user
   \<and> range_order [7, 8] (deref store_shared_array (dsh_ref generation_one_user 2))
   \<and> wf_info store_shared_array history_one_user
   \<and> wf_info store_shared_array generation_one_user
   \<and> structural_ok store_shared_array history_one_user generation_one_user
   \<and> fst (AddGeneration grow_double [2] (\<lambda>u. [7, 8]) history_one_user generation_one_user
            store_shared_array) = None
   \<and> device_ids store_shared_array history_one_user 2 7 = [\<lparr>ID = 11\<rparr>]
   \<and> device_ids store_shared_array generation_one_user 2 7 = [\<lparr>ID = 21\<rparr>]
   \<and> device_ids (snd (AddGeneration grow_double [2] (\<lambda>u. [7, 8]) history_one_user
                        generation_one_user store_shared_array)) history_one_user 2 7 =
       [\<lparr>ID = 11\<rparr>, \<lparr>ID = 22\<rparr>]"
proof (intro conjI)
  show "structural_ok store_shared_array history_one_user generation_one_user"
    by (auto simp add: structural_ok_def store_samples store_eval)
  show "wf_info store_shared_array history_one_user"
    by (auto simp add: unshared_eval store_samples store_eval)
  show "wf_info store_shared_array generation_one_user"
    by (auto simp add: unshared_eval store_samples store_eval)
qed (auto simp add: store_samples store_eval)

text \<open>
  C2, as stated, fails: the history holds one ID for each of the devices \<open>7\<close> and
  \<open>8\<close> of user \<open>2\<close>; the generation brings one ID for device \<open>7\<close> and two for
  device \<open>8\<close>; no storage is shared. Visiting \<open>7\<close> first, the loop appends to the
  list of device \<open>7\<close>, then fails on device \<open>8\<close>: the call returns an error and the
  list of device \<open>7\<close> has grown.
\<close>

theorem AddGeneration_error_after_append:
  "range_order [2] generation_one_user
   \<and> range_order [7, 8] (deref store_long_list (dsh_ref generation_one_user 2))
   \<and> unshared store_long_list history_one_user generation_one_user
   \<and> fst (AddGeneration grow_double [2] (\<lambda>u. [7, 8]) history_one_user generation_one_user
            store_long_list) = Some (NotExactlyOneKey 2 2 8)
   \<and> device_ids store_long_list history_one_user 2 7 = [\<lparr>ID = 11\<rparr>]
   \<and> device_ids (snd (AddGeneration grow_double [2] (\<lambda>u. [7, 8]) history_one_user
                        generation_one_user store_long_list)) history_one_user 2 7 =
       [\<lparr>ID = 11\<rparr>, \<lparr>ID = 21\<rparr>]"
proof (intro conjI)
  show "unshared store_long_list history_one_user generation_one_user"
    by (auto simp add: unshared_eval store_samples store_eval)
qed (auto simp add: store_samples store_eval)


text \<open>
  The same call, for the amended statement: device \<open>7\<close> was visited before the
  failing check and has its append, device \<open>8\<close>, which the error names, has the list
  it had.
\<close>

theorem AddGeneration_error_keeps_appends_witness:
  "range_order [2] generation_one_user
   \<and> range_order [7, 8] (deref store_long_list (dsh_ref generation_one_user 2))
   \<and> unshared store_long_list history_one_user generation_one_user
   \<and> fst (AddGeneration grow_double [2] (\<lambda>u. [7, 8]) history_one_user generation_one_user
            store_long_list) = Some (NotExactlyOneKey 2 2 8)
   \<and> appended_before (NotExactlyOneKey 2 2 8 :: (nat, nat) error) [2] (\<lambda>u. [7, 8]) 2 7
   \<and> \<not> appended_before (NotExactlyOneKey 2 2 8 :: (nat, nat) error) [2] (\<lambda>u. [7, 8]) 2 8
   \<and> device_ids (snd (AddGeneration grow_double [2] (\<lambda>u. [7, 8]) history_one_user
                        generation_one_user store_long_list)) history_one_user 2 7 =
       [\<lparr>ID = 11\<rparr>, \<lparr>ID = 21\<rparr>]
   \<and> device_ids (snd (AddGeneration grow_double [2] (\<lambda>u. [7, 8]) history_one_user
                        generation_one_user store_long_list)) history_one_user 2 8 =
       [\<lparr>ID = 12\<rparr>]"
proof -
  let ?e = "NotExactlyOneKey 2 2 8 :: (nat, nat) error"
  let ?st' = "snd (AddGeneration grow_double [2] (\<lambda>u. [7, 8]) history_one_user
                     generation_one_user store_long_list)"
  have h1: "range_order [2] generation_one_user"
    by (auto simp: store_samples store_eval)
  have h2: "\<forall>uid \<in> fmdom' generation_one_user.
      range_order ((\<lambda>u. [7, 8]) uid) (deref store_long_list (dsh_ref generation_one_user uid))"
    by (auto simp: store_samples store_eval)
  have h2': "range_order [7, 8] (deref store_long_list (dsh_ref generation_one_user 2))"
    by (auto simp: store_samples store_eval)
  have h3: "unshared store_long_list history_one_user generation_one_user"
    by (auto simp: unshared_eval store_samples store_eval)
  have err: "fst (AddGeneration grow_double [2] (\<lambda>u. [7, 8]) history_one_user
                    generation_one_user store_long_list) = Some ?e"
    by (auto simp: store_samples store_eval)
  have a7: "appended_before ?e [2] (\<lambda>u. [7, 8]) 2 7"
    by (simp add: appended_before_def visited_users_def visited_devices_def)
  have a8: "\<not> appended_before ?e [2] (\<lambda>u. [7, 8]) 2 8"
    by (simp add: appended_before_def visited_users_def visited_devices_def)
  have old: "device_ids store_long_list history_one_user 2 7 = [\<lparr>ID = 11\<rparr>]"
    "device_ids store_long_list generation_one_user 2 7 = [\<lparr>ID = 21\<rparr>]"
    "device_ids store_long_list history_one_user 2 8 = [\<lparr>ID = 12\<rparr>]"
    by (simp_all add: store_samples store_eval)
  note t = AddGeneration_error_keeps_appends[OF h1 h2 h3 err]
  have ids: "device_ids ?st' history_one_user uid key =
        (if appended_before ?e [2] (\<lambda>u. [7, 8]) uid key
         then device_ids store_long_list history_one_user uid key @
              device_ids store_long_list generation_one_user uid key
         else device_ids store_long_list history_one_user uid key)" for uid key
    using t by blast
  have r7: "device_ids ?st' history_one_user 2 7 = [\<lparr>ID = 11\<rparr>, \<lparr>ID = 21\<rparr>]"
    unfolding ids[of 2 7] using a7 old by simp
  have r8: "device_ids ?st' history_one_user 2 8 = [\<lparr>ID = 12\<rparr>]"
    unfolding ids[of 2 8] using a8 old by simp
  show ?thesis using h1 h2' h3 err a7 a8 r7 r8 by (intro conjI)
qed


text \<open>
  The empty history with the empty generation, and a removed user without devices.
\<close>

theorem AddGeneration_no_devices_witness:
  "range_order [] (fmempty :: (nat, nat) ServerHalfRemovalInfo)
   \<and> range_order [2] generation_keyless
   \<and> range_order [] (deref store_keyless (dsh_ref generation_keyless 2))
   \<and> unshared store_keyless history_keyless generation_keyless
   \<and> structural_ok store_keyless history_keyless generation_keyless
   \<and> AddGeneration grow_double [] (\<lambda>u. []) fmempty
        (fmempty :: (nat, nat) ServerHalfRemovalInfo) store_keyless = (None, store_keyless)
   \<and> addGeneration grow_double [] (shri_index history_keyless 2) (2 :: nat)
        (shri_index generation_keyless 2) store_keyless = (None, store_keyless)
   \<and> fst (AddGeneration grow_double [2] (\<lambda>u. []) history_keyless generation_keyless
            store_keyless) = None
   \<and> devices store_keyless history_keyless 2 = {}
   \<and> fmlookup (val_info (snd (AddGeneration grow_double [2] (\<lambda>u. []) history_keyless
                               generation_keyless store_keyless)) history_keyless) 2 =
       fmlookup (val_info store_keyless history_keyless) 2"
proof -
  let ?e = "fmempty :: (nat, nat) ServerHalfRemovalInfo"
  let ?ri = "shri_index history_keyless 2"
  let ?g = "shri_index generation_keyless 2"
  have h0: "range_order [] ?e" by (simp add: range_order_def)
  have h0': "\<forall>uid \<in> fmdom' ?e.
      range_order ((\<lambda>u. []) uid) (deref store_keyless (dsh_ref ?e uid))"
    by simp
  have h1: "range_order [2] generation_keyless"
    by (simp add: store_samples store_eval)
  have h2: "\<forall>uid \<in> fmdom' generation_keyless.
      range_order ((\<lambda>u. []) uid) (deref store_keyless (dsh_ref generation_keyless uid))"
    by (simp add: store_samples store_eval)
  have h2': "range_order [] (deref store_keyless (dsh_ref generation_keyless 2))"
    by (simp add: store_samples store_eval)
  have h3: "range_order [] (deref store_keyless (DeviceServerHalfIDs ?g))"
    by (simp add: store_samples store_eval)
  have un: "unshared store_keyless history_keyless generation_keyless"
    by (simp add: unshared_eval store_samples store_eval)
  have ok: "structural_ok store_keyless history_keyless generation_keyless"
    by (simp add: structural_ok_def store_samples store_eval)
  have dev: "deref store_keyless (DeviceServerHalfIDs ?ri) = fmempty"
    "deref store_keyless (DeviceServerHalfIDs ?g) = fmempty"
    "UserRemoved ?ri = UserRemoved ?g"
    "2 \<in> fmdom' generation_keyless" "devices store_keyless generation_keyless 2 = {}"
    by (simp_all add: store_samples store_eval)
  note t1 = AddGeneration_no_devices[OF h0 h0' h3, where info = ?e and ri = ?ri and uid = 2
      and grow = grow_double]
  note t2 = AddGeneration_no_devices[OF h1 h2 h3, where info = history_keyless and ri = ?ri
      and uid = 2 and grow = grow_double]
  have a: "AddGeneration grow_double [] (\<lambda>u. []) ?e ?e store_keyless = (None, store_keyless)"
    using t1 by blast
  have b: "addGeneration grow_double [] ?ri (2 :: nat) ?g store_keyless = (None, store_keyless)"
    using t1 dev(1,2,3) by blast
  have c: "fst (AddGeneration grow_double [2] (\<lambda>u. []) history_keyless generation_keyless
            store_keyless) = None"
    using t2 un ok dev(4,5) by blast
  have d: "devices store_keyless history_keyless 2 = {}"
    using t2 un ok dev(4,5) by blast
  have f: "fmlookup (val_info (snd (AddGeneration grow_double [2] (\<lambda>u. []) history_keyless
                               generation_keyless store_keyless)) history_keyless) 2 =
       fmlookup (val_info store_keyless history_keyless) 2"
    using t2 un ok dev(4,5) by blast
  show ?thesis using h0 h1 h2' un ok a b c d f by (intro conjI)
qed

end
